theory Spec2Isabelle
  imports Complex_Main "HOL-Library.Word" "HOL-Library.Numeral_Type"
begin

section \<open>Machine integers\<close>

text \<open>
  A Go \<open>int\<close> (and \<open>int64\<close>) is a 64-bit two's complement number. It is modelled as an
  integer, and \<open>int64\<close> gives the value that 64-bit arithmetic leaves: \<open>x + 1\<close> in Go is
  \<open>int64 (x + 1)\<close> here, so that \<open>9223372036854775807 + 1\<close> is \<open>-9223372036854775808\<close>.
\<close>

definition int64 :: "int \<Rightarrow> int" where
  "int64 x = (x + 2 ^ 63) mod 2 ^ 64 - 2 ^ 63"

section \<open>The vote batch: \<open>state/vote.go\<close>\<close>

text \<open>
  \<open>AddVote\<close> is a method of \<open>State\<close>. The declaration of \<open>State\<close>, the package
  \<open>crypto/elgamal\<close> and the constant \<open>VoteBatchSize\<close> are not among the source files, so
  the fields that \<open>AddVote\<close> touches are the fields of the record below, and the three
  things it calls are parameters:
  \<^item> \<open>VoteBatchSize\<close>, the capacity of a batch;
  \<^item> \<open>Deserialize\<close>, what \<open>elgamal.NewCiphertexts(Curve).Deserialize(value)\<close> leaves in the
    fresh ciphertext, or the error it returns;
  \<^item> \<open>CtAdd\<close>, the sum that \<open>x.Add(x, y)\<close> stores in \<open>x\<close>.

  \<open>o.tree.Get(key)\<close> returns an error when the key is not stored; the persisted tree is
  the partial map \<open>tree\<close>. \<open>AddVote\<close> never writes to it. The two counters are Go \<open>int\<close>s;
  \<open>++\<close> on them wraps in 64 bits.
\<close>

type_synonym bytes = "8 word list"

record 'c Vote =
  Nullifier :: bytes
  Ballot :: 'c
  Address :: bytes
  Commitment :: int

record ('c, 'tx) State =
  dbTx :: "'tx option"
  tree :: "bytes \<rightharpoonup> bytes"
  votes :: "'c Vote list"
  OverwriteSum :: 'c
  overwriteCount :: int
  BallotSum :: 'c
  ballotCount :: int

record ('c, 'e) Elgamal =
  VoteBatchSize :: nat
  Deserialize :: "bytes \<Rightarrow> 'e + 'c"
  CtAdd :: "'c \<Rightarrow> 'c \<Rightarrow> 'c"

text \<open>
  The three ways \<open>AddVote\<close> returns a non-nil error: \<open>"need to StartBatch() first"\<close>,
  \<open>"too many votes for this batch"\<close>, and the error of \<open>Deserialize\<close>, handed on as it is.
\<close>

datatype 'e AddVoteError = BatchNotOpen | BatchFull | CorruptStoredBallot 'e

text \<open>Lines 39 to 43: the part of \<open>AddVote\<close> that every accepted vote reaches.\<close>

definition countBallot :: "('c, 'e) Elgamal \<Rightarrow> ('c, 'tx) State \<Rightarrow> 'c Vote \<Rightarrow> ('c, 'tx) State" where
  "countBallot E s v =
     s\<lparr>BallotSum := CtAdd E (BallotSum s) (Ballot v),
       ballotCount := int64 (ballotCount s + 1),
       votes := votes s @ [v]\<rparr>"

text \<open>
  \<open>AddVote\<close> returns the error (\<open>None\<close> for \<open>nil\<close>) and the state the receiver is left in.
  Every early return happens before the first assignment to a field of the receiver.
\<close>

definition AddVote ::
  "('c, 'e) Elgamal \<Rightarrow> ('c, 'tx) State \<Rightarrow> 'c Vote \<Rightarrow> 'e AddVoteError option \<times> ('c, 'tx) State" where
  "AddVote E s v =
     (if dbTx s = None then (Some BatchNotOpen, s)
      else if length (votes s) \<ge> VoteBatchSize E then (Some BatchFull, s)
      else
        (case tree s (Nullifier v) of
           Some stored \<Rightarrow>
             (case Deserialize E stored of
                Inl err \<Rightarrow> (Some (CorruptStoredBallot err), s)
              | Inr oldVote \<Rightarrow>
                  (None,
                   countBallot E
                     (s\<lparr>OverwriteSum := CtAdd E (OverwriteSum s) oldVote,
                        overwriteCount := int64 (overwriteCount s + 1)\<rparr>) v))
         | None \<Rightarrow> (None, countBallot E s v)))"

text \<open>A caller adding votes one after the other, going on after an error.\<close>

fun AddVotes ::
  "('c, 'e) Elgamal \<Rightarrow> ('c, 'tx) State \<Rightarrow> 'c Vote list \<Rightarrow>
     'e AddVoteError option list \<times> ('c, 'tx) State" where
  "AddVotes E s [] = ([], s)"
| "AddVotes E s (v # vs) =
     (case AddVote E s v of
        (r, s') \<Rightarrow> (case AddVotes E s' vs of (rs, s'') \<Rightarrow> (r # rs, s'')))"

text \<open>The stored ciphertext of a nullifier, when there is one, decodes.\<close>

definition storedDecodes :: "('c, 'e) Elgamal \<Rightarrow> ('c, 'tx) State \<Rightarrow> bytes \<Rightarrow> bool" where
  "storedDecodes E s n =
     (case tree s n of None \<Rightarrow> True | Some stored \<Rightarrow> (case Deserialize E stored of Inl _ \<Rightarrow> False | Inr _ \<Rightarrow> True))"

text \<open>
  A small instance for closed examples: ciphertexts are integers under addition, the
  decoder rejects the empty byte string and reads any other as its length.
\<close>

definition toyElgamal :: "(int, unit) Elgamal" where
  "toyElgamal =
     \<lparr>VoteBatchSize = 2,
      Deserialize = (\<lambda>b. if b = [] then Inl () else Inr (int (length b))),
      CtAdd = (\<lambda>a b. a + b)\<rparr>"

definition emptyBatch :: "(bytes \<rightharpoonup> bytes) \<Rightarrow> (int, unit) State" where
  "emptyBatch t =
     \<lparr>dbTx = Some (), tree = t, votes = [], OverwriteSum = 0, overwriteCount = 0,
      BallotSum = 0, ballotCount = 0\<rparr>"

definition mkVote :: "bytes \<Rightarrow> int \<Rightarrow> int Vote" where
  "mkVote n b = \<lparr>Nullifier = n, Ballot = b, Address = [], Commitment = 0\<rparr>"

section \<open>The BabyJubJub wrapper: \<open>crypto/ecc/bjj_iden3/babyjubjub.go\<close>\<close>

text \<open>
  \<open>BJJ\<close> wraps a point of the external package \<open>go-iden3-crypto/babyjub\<close>: affine
  coordinates \<open>X\<close>, \<open>Y\<close> (big integers), converted to projective coordinates over the
  field of \<open>ffQ\<close> elements for the arithmetic. The package is not part of the repository;
  what the wrapper calls is written out here: \<open>Projective\<close> (reduce the coordinates,
  \<open>Z = 1\<close>), \<open>Affine\<close> (divide by \<open>Z\<close>; \<open>(0, 0)\<close> when \<open>Z = 0\<close>), the projective addition
  of the twisted Edwards curve \<open>A x\<^sup>2 + y\<^sup>2 = 1 + D x\<^sup>2 y\<^sup>2\<close>, and the
  field operations. The mutex of \<open>BJJ\<close> plays no part in a sequential call.
\<close>

definition ffQ :: int where
  "ffQ = 21888242871839275222246405745257275088548364400416034343698204186575808495617"

definition ffA :: int where "ffA = 168700"

definition ffD :: int where "ffD = 168696"

definition ffAdd :: "int \<Rightarrow> int \<Rightarrow> int" where "ffAdd a b = (a + b) mod ffQ"

definition ffSub :: "int \<Rightarrow> int \<Rightarrow> int" where "ffSub a b = (a - b) mod ffQ"

definition ffMul :: "int \<Rightarrow> int \<Rightarrow> int" where "ffMul a b = (a * b) mod ffQ"

definition ffNeg :: "int \<Rightarrow> int" where "ffNeg a = (- a) mod ffQ"

text \<open>The inverse in the field (of zero: zero), by Fermat's little theorem.\<close>

definition ffInverse :: "int \<Rightarrow> int" where
  "ffInverse a = (a ^ nat (ffQ - 2)) mod ffQ"

record Point =
  X :: int
  Y :: int

record PointProjective =
  PX :: int
  PY :: int
  PZ :: int

definition Projective :: "Point \<Rightarrow> PointProjective" where
  "Projective p = \<lparr>PX = X p mod ffQ, PY = Y p mod ffQ, PZ = 1\<rparr>"

definition Affine :: "PointProjective \<Rightarrow> Point" where
  "Affine p =
     (if PZ p = 0 then \<lparr>X = 0, Y = 0\<rparr>
      else let zinv = ffInverse (PZ p) in \<lparr>X = ffMul (PX p) zinv, Y = ffMul (PY p) zinv\<rparr>)"

text \<open>\<open>PointProjective.Add\<close>: the formulas \<open>add-2008-bbjlp\<close>.\<close>

definition PointProjective_Add :: "PointProjective \<Rightarrow> PointProjective \<Rightarrow> PointProjective" where
  "PointProjective_Add q o' =
     (let a = ffMul (PZ q) (PZ o');
          b = ffMul a a;
          c = ffMul (PX q) (PX o');
          d = ffMul (PY q) (PY o');
          e = ffMul (ffMul ffD c) d;
          f = ffSub b e;
          g = ffAdd b e;
          x1y1 = ffAdd (PX q) (PY q);
          x2y2 = ffAdd (PX o') (PY o');
          x3 = ffMul (ffMul (ffSub (ffSub (ffMul x1y1 x2y2) c) d) a) f;
          ac = ffMul ffA c;
          y3 = ffMul (ffMul (ffSub d ac) a) g;
          z3 = ffMul f g
      in \<lparr>PX = x3, PY = y3, PZ = z3\<rparr>)"

record BJJ =
  inner :: Point

text \<open>\<open>New\<close>: \<open>babyjubjub.NewPoint()\<close>, the identity \<open>(0, 1)\<close>.\<close>

definition BJJ_New :: BJJ where
  "BJJ_New = \<lparr>inner = \<lparr>X = 0, Y = 1\<rparr>\<rparr>"

text \<open>A fresh element after \<open>SetGenerator\<close>: the coordinates of \<open>babyjubjub.B8\<close>.\<close>

definition BJJ_B8 :: BJJ where
  "BJJ_B8 =
     \<lparr>inner =
        \<lparr>X = 5299619240641551281634865583518297030282874472190772894086521144482721001553,
         Y = 16950150798460657717958625567821834550301663161624707787222815936182638968203\<rparr>\<rparr>"

text \<open>
  The methods take the receiver \<open>g\<close> first and return the receiver after the call.
  \<open>Add\<close> replaces \<open>g.inner\<close> by the sum of its two arguments.
\<close>

definition BJJ_Add :: "BJJ \<Rightarrow> BJJ \<Rightarrow> BJJ \<Rightarrow> BJJ" where
  "BJJ_Add g a b = g\<lparr>inner := Affine (PointProjective_Add (Projective (inner a)) (Projective (inner b)))\<rparr>"

text \<open>
  \<open>Neg\<close> (lines 89 to 95): \<open>proj\<close> is the projective form of the receiver's own point;
  its \<open>X\<close> is negated in the field, and the affine \<open>X\<close> of the result is stored in
  \<open>g.inner.X\<close>. \<open>g.inner.Y\<close> is not assigned. The argument \<open>a\<close> does not occur in the body.
\<close>

definition BJJ_Neg :: "BJJ \<Rightarrow> BJJ \<Rightarrow> BJJ" where
  "BJJ_Neg g a =
     (let proj = Projective (inner g);
          proj' = proj\<lparr>PX := ffNeg (PX proj)\<rparr>
      in g\<lparr>inner := (inner g)\<lparr>X := X (Affine proj')\<rparr>\<rparr>)"

definition BJJ_Equal :: "BJJ \<Rightarrow> BJJ \<Rightarrow> bool" where
  "BJJ_Equal g a \<longleftrightarrow> X (inner g) = X (inner a) \<and> Y (inner g) = Y (inner a)"

section \<open>Threshold decryption: \<open>decrypt.go\<close>\<close>

subsection \<open>Constants\<close>

definition discreteLogMaxMessage :: nat where
  "discreteLogMaxMessage = 7000000000 * 16"

definition numWorkersDiscreteLogBruteForce :: nat where
  "numWorkersDiscreteLogBruteForce = 10"

subsection \<open>The group\<close>

text \<open>
  Modelled from the spec: the type \<open>G1\<close> with its methods, the variable \<open>Order\<close> and the
  type \<open>Participant\<close> are declared in a file of package \<open>main\<close> that is not among the
  source files. \<open>decrypt.go\<close> is written against them, so they are parameters here: a
  record of the operations that \<open>decrypt.go\<close> calls, over a type \<open>'g\<close> of group elements.
  A method such as \<open>s.Add(a, b)\<close> stores its result in the receiver; the field gives the
  value stored. \<open>G1_Zero\<close> is the value of a fresh \<open>&G1{}\<close>, which is also what \<open>SetZero\<close>
  stores. The operations take points, not pointers: a method that is handed a nil
  pointer reads the point behind it (its field \<open>inner\<close>, as line 192 does) and panics,
  which the callers below model where a pointer can be nil.

  \<open>group_contract\<close> is the capability contract of the spec's data model (section 3): a
  commutative group, \<open>scalarMultiply(p, k) = k\<cdot>p\<close> for a non-negative \<open>k\<close>,
  \<open>scalarMultiplyBase(k) = k\<cdot>generator\<close>, the generator of order exactly \<open>Order\<close>, \<open>equals\<close>
  exact equality, and the string encoding free of collisions. Its first conjunct is
  section 4.4 of the spec: the bound of the search space is "far below the group order".
  That \<open>Order\<close> is a prime is not part of the contract; where it matters, a theorem
  names what it needs of \<open>Order\<close> and the participant ids.
\<close>

record 'g Curve =
  Order :: int
  G1_Zero :: 'g
  G1_Add :: "'g \<Rightarrow> 'g \<Rightarrow> 'g"
  G1_Neg :: "'g \<Rightarrow> 'g"
  G1_ScalarMult :: "'g \<Rightarrow> int \<Rightarrow> 'g"
  G1_ScalarBaseMult :: "int \<Rightarrow> 'g"
  G1_Equal :: "'g \<Rightarrow> 'g \<Rightarrow> bool"
  G1_String :: "'g \<Rightarrow> string"

definition group_contract :: "'g Curve \<Rightarrow> bool" where
  "group_contract C \<longleftrightarrow>
     int discreteLogMaxMessage < Order C \<and>
     (\<forall>a b c. G1_Add C (G1_Add C a b) c = G1_Add C a (G1_Add C b c)) \<and>
     (\<forall>a b. G1_Add C a b = G1_Add C b a) \<and>
     (\<forall>a. G1_Add C (G1_Zero C) a = a) \<and>
     (\<forall>a. G1_Add C (G1_Neg C a) a = G1_Zero C) \<and>
     (\<forall>p. G1_ScalarMult C p 0 = G1_Zero C) \<and>
     (\<forall>p k. 0 \<le> k \<longrightarrow> G1_ScalarMult C p (k + 1) = G1_Add C (G1_ScalarMult C p k) p) \<and>
     (\<forall>p. G1_ScalarMult C p (Order C) = G1_Zero C) \<and>
     (\<forall>k. 0 \<le> k \<longrightarrow> G1_ScalarMult C (G1_ScalarBaseMult C 1) k = G1_ScalarBaseMult C k) \<and>
     (\<forall>k. 0 < k \<and> k < Order C \<longrightarrow> G1_ScalarBaseMult C k \<noteq> G1_Zero C) \<and>
     (\<forall>a b. G1_Equal C a b \<longleftrightarrow> a = b) \<and>
     inj (G1_String C)"

text \<open>Primes (section 3 of the spec: "order \<open>N\<close>, a large prime").\<close>

definition is_prime :: "int \<Rightarrow> bool" where
  "is_prime p \<longleftrightarrow> 1 < p \<and> (\<forall>d\<in>{2..<p}. \<not> d dvd p)"

record Participant =
  ID :: int
  PrivateShare :: int

subsection \<open>Ways a call ends\<close>

text \<open>
  A call returns, or ends the process through \<open>log.Fatalf\<close> (\<open>Fatal\<close>), or panics on a nil
  pointer (\<open>Panic\<close>). The two errors that are returned are \<open>"failed to decrypt message,
  discrete logarithm problem unsolved"\<close> (line 126) and \<open>"failed to compute discrete
  logarithm using Baby-Step Giant-Step algorithm"\<close> (line 206); the spec calls both
  \<open>DiscreteLogUnsolved\<close>.
\<close>

datatype 'a outcome = Returned 'a | Fatal | Panic

datatype decryptError = DiscreteLogUnsolved | DiscreteLogUnsolvedBSGS

subsection \<open>\<open>ComputePartialDecryption\<close>\<close>

definition ComputePartialDecryption :: "'g Curve \<Rightarrow> Participant \<Rightarrow> 'g \<Rightarrow> 'g" where
  "ComputePartialDecryption C p c1 = G1_ScalarMult C c1 (PrivateShare p)"

subsection \<open>\<open>computeLagrangeCoefficients\<close>\<close>

text \<open>
  Participant ids are Go \<open>int\<close>s: \<open>-j\<close> and \<open>i - j\<close> are computed in 64 bits, two's
  complement, before they become big integers.

  \<open>big.Int.Mod(x, m)\<close> is the Euclidean modulus: for \<open>m \<noteq> 0\<close> the result is in
  \<open>[0, |m|)\<close>. For \<open>m = 0\<close> it panics (division by zero), which
  \<open>computeLagrangeCoefficients\<close> below takes care of.
\<close>

definition bigMod :: "int \<Rightarrow> int \<Rightarrow> int" where
  "bigMod x m = x mod \<bar>m\<bar>"

text \<open>
  \<open>big.Int.ModInverse(g, n)\<close>: the inverse of \<open>g\<close> in the ring of integers modulo \<open>|n|\<close>, in
  \<open>[0, |n|)\<close>, from the coefficients of the extended Euclidean algorithm; \<open>nil\<close> when \<open>g\<close>
  and \<open>n\<close> are not relatively prime. (For \<open>|n| = 1\<close> every integer is an inverse; the
  coefficient that is stored then is \<open>0\<close> whichever one is returned.)
\<close>

definition ModInverse :: "int \<Rightarrow> int \<Rightarrow> int option" where
  "ModInverse g n =
     (if gcd g n = 1 then Some (fst (bezw (nat (g mod \<bar>n\<bar>)) (nat \<bar>n\<bar>)) mod \<bar>n\<bar>) else None)"

text \<open>The inner loop (lines 136 to 153), on the pair \<open>(numerator, denominator)\<close>.\<close>

fun lagrangeInner :: "int \<Rightarrow> int \<Rightarrow> int list \<Rightarrow> int \<times> int \<Rightarrow> int \<times> int" where
  "lagrangeInner n i [] (numerator, denominator) = (numerator, denominator)"
| "lagrangeInner n i (j # js) (numerator, denominator) =
     (if i \<noteq> j then
        let tempNum = bigMod (int64 (- j)) n;
            numerator' = bigMod (numerator * tempNum) n;
            tempDen0 = int64 (i - j);
            tempDen1 = (if tempDen0 < 0 then tempDen0 + n else tempDen0);
            tempDen = bigMod tempDen1 n;
            denominator' = bigMod (denominator * tempDen) n
        in lagrangeInner n i js (numerator', denominator')
      else lagrangeInner n i js (numerator, denominator))"

text \<open>
  The outer loop (lines 133 to 161) over the participants still to do; \<open>log.Fatalf\<close> ends
  the process when \<open>ModInverse\<close> returns \<open>nil\<close>.
\<close>

fun lagrangeOuter ::
  "int \<Rightarrow> int list \<Rightarrow> int list \<Rightarrow> (int \<rightharpoonup> int) \<Rightarrow> (int \<rightharpoonup> int) outcome" where
  "lagrangeOuter n participants [] coeffs = Returned coeffs"
| "lagrangeOuter n participants (i # rest) coeffs =
     (case lagrangeInner n i participants (1, 1) of
        (numerator, denominator) \<Rightarrow>
          (case ModInverse denominator n of
             None \<Rightarrow> Fatal
           | Some denominatorInv \<Rightarrow>
               lagrangeOuter n participants rest
                 (coeffs(i \<mapsto> bigMod (numerator * denominatorInv) n))))"

text \<open>
  \<open>n\<close> is the variable \<open>Order\<close>. With \<open>Order = 0\<close> the first pass of the outer loop panics
  in a \<open>Mod\<close> (in the inner loop, or at the latest in \<open>coeff.Mod\<close>); without participants
  no loop is entered.
\<close>

definition computeLagrangeCoefficients :: "int \<Rightarrow> int list \<Rightarrow> (int \<rightharpoonup> int) outcome" where
  "computeLagrangeCoefficients n participants =
     (if n = 0 \<and> participants \<noteq> [] then Panic
      else lagrangeOuter n participants participants Map.empty)"

text \<open>
  The coefficient that one pass of the outer loop stores for \<open>i\<close>, or \<open>None\<close> when that pass
  ends the process.
\<close>

definition lagrangeCoeff :: "int \<Rightarrow> int list \<Rightarrow> int \<Rightarrow> int option" where
  "lagrangeCoeff n participants i =
     (case lagrangeInner n i participants (1, 1) of
        (numerator, denominator) \<Rightarrow>
          map_option (\<lambda>denominatorInv. bigMod (numerator * denominatorInv) n)
            (ModInverse denominator n))"

text \<open>
  The spec's formula (section 4.3): the numerator \<open>\<Prod>\<^bsub>j \<noteq> i\<^esub> (-j)\<close> and the denominator
  \<open>\<Prod>\<^bsub>j \<noteq> i\<^esub> (i - j)\<close> of the Lagrange coefficient of \<open>i\<close> at zero, over the set of ids.
\<close>

definition lagNum :: "int set \<Rightarrow> int \<Rightarrow> int" where
  "lagNum S i = (\<Prod>j\<in>S - {i}. - j)"

definition lagDen :: "int set \<Rightarrow> int \<Rightarrow> int" where
  "lagDen S i = (\<Prod>j\<in>S - {i}. i - j)"

text \<open>The same coefficient over a field, as a fraction (used in the proofs).\<close>

definition lbasis :: "'a::field set \<Rightarrow> 'a \<Rightarrow> 'a" where
  "lbasis S i = (\<Prod>j\<in>S - {i}. j / (j - i))"

text \<open>
  Modelled from the spec: how private shares are made is outside the repository ("a
  Shamir-style secret share of the combined private key"). A dealer polynomial is the
  list of its coefficients, the secret first; the share of participant \<open>i\<close> is its value
  at \<open>i\<close>, reduced modulo the group order.
\<close>

fun peval :: "int list \<Rightarrow> int \<Rightarrow> int" where
  "peval [] x = 0"
| "peval (c # cs) x = c + x * peval cs x"

definition shamirShare :: "int \<Rightarrow> int list \<Rightarrow> int \<Rightarrow> int" where
  "shamirShare n cs i = peval cs i mod n"

subsection \<open>The discrete logarithm\<close>

text \<open>
  Strategy A. A worker scans \<open>start, start + 1, ..., stop\<close> (\<open>end\<close> in the source) and
  reports the first scalar whose base multiple equals \<open>m\<close>, or "not found" (\<open>None\<close>).
  \<open>worker\<close> is a closure that is called with the ten ranges of \<open>workerRange\<close> only; their
  bounds are at most \<open>discreteLogMaxMessage\<close>, so the \<open>uint64\<close> counter does not wrap.
\<close>

function worker :: "'g Curve \<Rightarrow> 'g \<Rightarrow> nat \<Rightarrow> nat \<Rightarrow> nat option" where
  "worker C m i stop =
     (if i \<le> stop then
        (if G1_Equal C (G1_ScalarBaseMult C (int i)) m then Some i
         else worker C m (Suc i) stop)
      else None)"
  by pat_completeness auto
termination
  by (relation "measure (\<lambda>(C, m, i, stop). Suc stop - i)") auto

definition workerRange :: "nat \<Rightarrow> nat \<times> nat" where
  "workerRange i =
     (let step = discreteLogMaxMessage div numWorkersDiscreteLogBruteForce;
          start = i * step
      in (start,
          if i = numWorkersDiscreteLogBruteForce - 1 then discreteLogMaxMessage
          else start + (step - 1)))"

text \<open>
  Every worker sends exactly one result (the channel has room for all of them); the
  caller receives them in some order and returns at the first that was found. The order
  of arrival is the schedule \<open>sched\<close>, a list of worker indices.
\<close>

fun collectResults :: "nat option list \<Rightarrow> decryptError + int" where
  "collectResults [] = Inl DiscreteLogUnsolved"
| "collectResults (Some x # rs) = Inr (int x)"
| "collectResults (None # rs) = collectResults rs"

definition bruteForce :: "'g Curve \<Rightarrow> nat list \<Rightarrow> 'g \<Rightarrow> decryptError + int" where
  "bruteForce C sched m =
     collectResults (map (\<lambda>w. case workerRange w of (start, stop) \<Rightarrow> worker C m start stop) sched)"

definition schedule_ok :: "nat list \<Rightarrow> bool" where
  "schedule_ok sched \<longleftrightarrow> distinct sched \<and> set sched = {0..<numWorkersDiscreteLogBruteForce}"

text \<open>
  Strategy B. \<open>mSqrt = uint64(math.Sqrt(float64(maxMessage))) + 1\<close>; the square root of
  \<open>112000000000\<close> is \<open>334664.01...\<close>, so the conversion truncates to the floor of the
  exact root.
\<close>

definition mSqrt :: nat where
  "mSqrt = nat \<lfloor>sqrt (real discreteLogMaxMessage)\<rfloor> + 1"

function babySteps_loop ::
  "'g Curve \<Rightarrow> 'g \<Rightarrow> nat \<Rightarrow> 'g \<Rightarrow> (string \<rightharpoonup> nat) \<Rightarrow> (string \<rightharpoonup> nat)" where
  "babySteps_loop C G j babyStep babySteps =
     (if j < mSqrt then
        babySteps_loop C G (Suc j) (G1_Add C babyStep G) (babySteps(G1_String C babyStep \<mapsto> j))
      else babySteps)"
  by pat_completeness auto
termination
  by (relation "measure (\<lambda>(C, G, j, babyStep, babySteps). mSqrt - j)") auto

function giantSteps_loop ::
  "'g Curve \<Rightarrow> (string \<rightharpoonup> nat) \<Rightarrow> 'g \<Rightarrow> nat \<Rightarrow> 'g \<Rightarrow> decryptError + int" where
  "giantSteps_loop C babySteps c i giantStep =
     (if i \<le> mSqrt then
        (case babySteps (G1_String C giantStep) of
           Some j \<Rightarrow> Inr (int (i * mSqrt) + int j)
         | None \<Rightarrow> giantSteps_loop C babySteps c (Suc i) (G1_Add C giantStep c))
      else Inl DiscreteLogUnsolvedBSGS)"
  by pat_completeness auto
termination
  by (relation "measure (\<lambda>(C, babySteps, c, i, giantStep). Suc mSqrt - i)") auto

text \<open>
  The table after the first loop, and the point that the second loop looks up in its
  pass \<open>i\<close>: \<open>m\<close> after \<open>i\<close> additions of \<open>c\<close>.
\<close>

definition babyTable :: "'g Curve \<Rightarrow> (string \<rightharpoonup> nat)" where
  "babyTable C = babySteps_loop C (G1_ScalarBaseMult C 1) 0 (G1_Zero C) Map.empty"

primrec giantPoint :: "'g Curve \<Rightarrow> 'g \<Rightarrow> nat \<Rightarrow> 'g" where
  "giantPoint C m 0 = m"
| "giantPoint C m (Suc i) = G1_Add C (giantPoint C m i) (G1_Neg C (G1_ScalarBaseMult C (int mSqrt)))"

definition babyStepGiantStep :: "'g Curve \<Rightarrow> 'g \<Rightarrow> decryptError + int" where
  "babyStepGiantStep C m =
     (let G = G1_ScalarBaseMult C 1;
          babySteps = babySteps_loop C G 0 (G1_Zero C) Map.empty;
          c = G1_Neg C (G1_ScalarBaseMult C (int mSqrt))
      in giantSteps_loop C babySteps c 0 m)"

text \<open>
  Lines 58 to 126 of \<open>CombinePartialDecryptions\<close>: the scalar of the point \<open>m\<close>, by the
  strategy that the variable \<open>useBabyStepGiantStep\<close> selects.
\<close>

definition recoverScalar :: "'g Curve \<Rightarrow> bool \<Rightarrow> nat list \<Rightarrow> 'g \<Rightarrow> decryptError + int" where
  "recoverScalar C useBabyStepGiantStep sched m =
     (if \<not> useBabyStepGiantStep then bruteForce C sched m else babyStepGiantStep C m)"

subsection \<open>\<open>CombinePartialDecryptions\<close>\<close>

text \<open>
  The loop of lines 38 to 46, on the running sum \<open>s\<close>. The map \<open>partialDecryptions\<close> is a
  partial map to (non-nil) points; for a participant without an entry the lookup gives a
  nil point, which \<open>ScalarMult\<close> dereferences: the call panics (\<open>None\<close>). \<open>c2\<close> is a
  non-nil point.
\<close>

fun weightedSum ::
  "'g Curve \<Rightarrow> (int \<rightharpoonup> 'g) \<Rightarrow> (int \<rightharpoonup> int) \<Rightarrow> int list \<Rightarrow> 'g \<Rightarrow> 'g option" where
  "weightedSum C partialDecryptions lagrangeCoeffs [] s = Some s"
| "weightedSum C partialDecryptions lagrangeCoeffs (pid # rest) s =
     (case partialDecryptions pid of
        None \<Rightarrow> None
      | Some pd \<Rightarrow>
          (case lagrangeCoeffs pid of
             None \<Rightarrow> None
           | Some lambda \<Rightarrow>
               weightedSum C partialDecryptions lagrangeCoeffs rest
                 (G1_Add C s (G1_ScalarMult C pd lambda))))"

definition CombinePartialDecryptions ::
  "'g Curve \<Rightarrow> bool \<Rightarrow> nat list \<Rightarrow> 'g \<Rightarrow> (int \<rightharpoonup> 'g) \<Rightarrow> int list \<Rightarrow> (decryptError + int) outcome" where
  "CombinePartialDecryptions C useBabyStepGiantStep sched c2 partialDecryptions participants =
     (case computeLagrangeCoefficients (Order C) participants of
        Fatal \<Rightarrow> Fatal
      | Panic \<Rightarrow> Panic
      | Returned lagrangeCoeffs \<Rightarrow>
          (case weightedSum C partialDecryptions lagrangeCoeffs participants (G1_Zero C) of
             None \<Rightarrow> Panic
           | Some s \<Rightarrow>
               (let s' = G1_Neg C s;
                    m = G1_Add C c2 s'
                in Returned (recoverScalar C useBabyStepGiantStep sched m))))"

section \<open>An instance of the group\<close>

text \<open>
  For closed examples: the integers modulo \<open>2^64\<close> under addition, generated by \<open>1\<close>, with
  the decimal numeral of an element as its string.
\<close>

function decimal :: "nat \<Rightarrow> string" where
  "decimal n = (if n < 10 then [char_of (48 + n)] else decimal (n div 10) @ [char_of (48 + n mod 10)])"
  by pat_completeness auto
termination
  by (relation "measure (\<lambda>n. n)") auto

definition W64 :: "64 word Curve" where
  "W64 =
     \<lparr>Order = 2 ^ 64,
      G1_Zero = 0,
      G1_Add = (\<lambda>a b. a + b),
      G1_Neg = (\<lambda>a. - a),
      G1_ScalarMult = (\<lambda>p k. word_of_int k * p),
      G1_ScalarBaseMult = (\<lambda>k. word_of_int k),
      G1_Equal = (\<lambda>a b. a = b),
      G1_String = (\<lambda>a. decimal (unat a))\<rparr>"

text \<open>The order in which the ten workers report when each finishes before the next.\<close>

definition inOrder :: "nat list" where
  "inOrder = [0, 1, 2, 3, 4, 5, 6, 7, 8, 9]"

section \<open>Properties of the vote batch\<close>

subsection \<open>Facts about \<open>AddVote\<close>\<close>

lemma AddVote_tree: "tree (snd (AddVote E s v)) = tree s"
  by (simp add: AddVote_def countBallot_def split: option.splits sum.splits)

lemma AddVote_dbTx: "dbTx (snd (AddVote E s v)) = dbTx s"
  by (simp add: AddVote_def countBallot_def split: option.splits sum.splits)

lemma AddVote_full:
  "dbTx s \<noteq> None \<Longrightarrow> VoteBatchSize E \<le> length (votes s) \<Longrightarrow> AddVote E s v = (Some BatchFull, s)"
  by (simp add: AddVote_def)

lemma AddVote_ok:
  assumes "dbTx s \<noteq> None" "length (votes s) < VoteBatchSize E" "storedDecodes E s (Nullifier v)"
  shows "fst (AddVote E s v) = None"
    and "length (votes (snd (AddVote E s v))) = Suc (length (votes s))"
  using assms
  by (auto simp: AddVote_def countBallot_def storedDecodes_def split: option.splits sum.splits)

lemma storedDecodes_AddVote:
  "storedDecodes E (snd (AddVote E s v)) n = storedDecodes E s n"
  by (simp add: storedDecodes_def AddVote_tree)

lemma fst_AddVotes_Cons:
  "fst (AddVotes E s (v # vs)) = fst (AddVote E s v) # fst (AddVotes E (snd (AddVote E s v)) vs)"
  by (simp split: prod.splits)

lemma AddVotes_capacity:
  assumes "dbTx s \<noteq> None" "\<forall>v\<in>set vs. storedDecodes E s (Nullifier v)"
  shows "fst (AddVotes E s vs) =
           replicate (min (length vs) (VoteBatchSize E - length (votes s))) None @
           replicate (length vs - (VoteBatchSize E - length (votes s))) (Some BatchFull)"
  using assms
proof (induction vs arbitrary: s)
  case Nil
  then show ?case by simp
next
  case (Cons v vs)
  define s' where "s' = snd (AddVote E s v)"
  have open': "dbTx s' \<noteq> None" using Cons.prems(1) by (simp add: s'_def AddVote_dbTx)
  have dec': "\<forall>w\<in>set vs. storedDecodes E s' (Nullifier w)"
    using Cons.prems(2) by (simp add: s'_def storedDecodes_AddVote)
  note IH = Cons.IH [OF open' dec']
  have step: "fst (AddVotes E s (v # vs)) = fst (AddVote E s v) # fst (AddVotes E s' vs)"
    unfolding s'_def by (rule fst_AddVotes_Cons)
  show ?case
  proof (cases "length (votes s) < VoteBatchSize E")
    case True
    have r: "fst (AddVote E s v) = None" and len: "length (votes s') = Suc (length (votes s))"
      using AddVote_ok [OF Cons.prems(1) True] Cons.prems(2) by (simp_all add: s'_def)
    have m: "min (length (v # vs)) (VoteBatchSize E - length (votes s)) =
        Suc (min (length vs) (VoteBatchSize E - length (votes s')))"
      using True len by (simp add: min_def) arith
    have d: "length (v # vs) - (VoteBatchSize E - length (votes s)) =
        length vs - (VoteBatchSize E - length (votes s'))"
      using True len by simp
    show ?thesis
      unfolding step r IH m d by simp
  next
    case False
    then have full: "VoteBatchSize E \<le> length (votes s)" by simp
    have av: "AddVote E s v = (Some BatchFull, s)"
      by (rule AddVote_full [OF Cons.prems(1) full])
    have "s' = s" by (simp add: s'_def av)
    then show ?thesis
      using IH full unfolding step by (simp add: av)
  qed
qed


subsection \<open>A nullifier used twice in one batch\<close>

text \<open>
  C4 (as stated, refuted). Claim: a vote with nullifier \<open>A\<close> and ballot \<open>E1\<close>, then a second
  vote with the same nullifier and ballot \<open>E2\<close>, leave \<open>overwriteSum = E1\<close> and
  \<open>overwriteCount = 1\<close>. Here the batch is fresh, \<open>A = [1]\<close> is not in the store, \<open>E1 = 5\<close>,
  \<open>E2 = 7\<close>: both calls succeed, the ballot sum is \<open>5 + 7\<close> and two votes are counted, but
  nothing is recorded as overwritten, since \<open>AddVote\<close> looks the nullifier up in the
  persisted store only and does not write to it.
\<close>

theorem AddVote_twice_counterexample:
  "fst (AddVotes toyElgamal (emptyBatch Map.empty) [mkVote [1] 5, mkVote [1] 7]) = [None, None] \<and>
   snd (AddVotes toyElgamal (emptyBatch Map.empty) [mkVote [1] 5, mkVote [1] 7]) =
     \<lparr>dbTx = Some (), tree = Map.empty, votes = [mkVote [1] 5, mkVote [1] 7],
      OverwriteSum = 0, overwriteCount = 0, BallotSum = 5 + 7, ballotCount = 2\<rparr> \<and>
   overwriteCount (snd (AddVotes toyElgamal (emptyBatch Map.empty) [mkVote [1] 5, mkVote [1] 7])) \<noteq> 1 \<and>
   OverwriteSum (snd (AddVotes toyElgamal (emptyBatch Map.empty) [mkVote [1] 5, mkVote [1] 7])) \<noteq> 5"
  by (simp add: AddVote_def countBallot_def toyElgamal_def emptyBatch_def mkVote_def int64_def)

text \<open>
  C4 (amended). In an open batch with room for two more votes, adding \<open>v1\<close> and then \<open>v2\<close>
  with the same nullifier, a nullifier that is not in the persisted store, succeeds
  twice; the ballot sum gains both ballots in order (\<open>E1 + E2\<close> from a zero sum), the
  ballot count is incremented twice, in 64 bits (\<open>2\<close> from \<open>0\<close>), both votes are appended
  (\<open>len(votes) = 2\<close> from an empty batch), and \<open>overwriteSum\<close> and \<open>overwriteCount\<close> keep
  the values they had (not \<open>E1\<close> and \<open>1\<close>): the second call is not recognised as an
  overwrite of the first.
\<close>

theorem AddVote_twice:
  assumes "dbTx s \<noteq> None"
    and "Suc (length (votes s)) < VoteBatchSize E"
    and "Nullifier v2 = Nullifier v1"
    and "tree s (Nullifier v1) = None"
  shows "fst (AddVotes E s [v1, v2]) = [None, None] \<and>
         BallotSum (snd (AddVotes E s [v1, v2])) = CtAdd E (CtAdd E (BallotSum s) (Ballot v1)) (Ballot v2) \<and>
         ballotCount (snd (AddVotes E s [v1, v2])) = int64 (int64 (ballotCount s + 1) + 1) \<and>
         (ballotCount s = 0 \<longrightarrow> ballotCount (snd (AddVotes E s [v1, v2])) = 2) \<and>
         votes (snd (AddVotes E s [v1, v2])) = votes s @ [v1, v2] \<and>
         OverwriteSum (snd (AddVotes E s [v1, v2])) = OverwriteSum s \<and>
         overwriteCount (snd (AddVotes E s [v1, v2])) = overwriteCount s"
proof -
  have two: "int64 (int64 (0 + 1) + 1) = 2"
    by (simp add: int64_def)
  show ?thesis
    using assms two by (auto simp: AddVote_def countBallot_def)
qed

theorem AddVote_twice_witness:
  "fst (AddVotes toyElgamal (emptyBatch [[2] \<mapsto> [7]]) [mkVote [1] 5, mkVote [1] 7]) = [None, None] \<and>
   BallotSum (snd (AddVotes toyElgamal (emptyBatch [[2] \<mapsto> [7]]) [mkVote [1] 5, mkVote [1] 7])) = 12 \<and>
   ballotCount (snd (AddVotes toyElgamal (emptyBatch [[2] \<mapsto> [7]]) [mkVote [1] 5, mkVote [1] 7])) = 2 \<and>
   votes (snd (AddVotes toyElgamal (emptyBatch [[2] \<mapsto> [7]]) [mkVote [1] 5, mkVote [1] 7])) =
     [mkVote [1] 5, mkVote [1] 7] \<and>
   OverwriteSum (snd (AddVotes toyElgamal (emptyBatch [[2] \<mapsto> [7]]) [mkVote [1] 5, mkVote [1] 7])) = 0 \<and>
   overwriteCount (snd (AddVotes toyElgamal (emptyBatch [[2] \<mapsto> [7]]) [mkVote [1] 5, mkVote [1] 7])) = 0"
proof -
  have h1: "dbTx (emptyBatch [[2] \<mapsto> [7]]) \<noteq> None"
    by (simp add: emptyBatch_def)
  have h2: "Suc (length (votes (emptyBatch [[2] \<mapsto> [7]]))) < VoteBatchSize toyElgamal"
    by (simp add: emptyBatch_def toyElgamal_def)
  have h3: "Nullifier (mkVote [1] 7) = Nullifier (mkVote [1] 5)"
    by (simp add: mkVote_def)
  have h4: "tree (emptyBatch [[2] \<mapsto> [7]]) (Nullifier (mkVote [1] 5)) = None"
    by (simp add: emptyBatch_def mkVote_def)
  show ?thesis
    using AddVote_twice [OF h1 h2 h3 h4]
    by (simp add: emptyBatch_def toyElgamal_def mkVote_def)
qed

subsection \<open>A stored ciphertext that does not decode\<close>

text \<open>
  C7. When the batch is open and not full, the nullifier of \<open>v\<close> is in the persisted store
  and the stored bytes do not decode, \<open>AddVote\<close> returns the decoder's error and leaves
  the state as it was (every field: \<open>ballotSum\<close>, \<open>ballotCount\<close>, \<open>overwriteSum\<close>,
  \<open>overwriteCount\<close>, \<open>votes\<close>). A later vote \<open>w\<close> whose stored ciphertext (if any) decodes
  is then accepted and appended to the same batch.
\<close>

theorem AddVote_corrupt:
  assumes "dbTx s \<noteq> None"
    and "length (votes s) < VoteBatchSize E"
    and "tree s (Nullifier v) = Some stored"
    and "Deserialize E stored = Inl err"
  shows "AddVote E s v = (Some (CorruptStoredBallot err), s) \<and>
         (\<forall>w. storedDecodes E s (Nullifier w) \<longrightarrow>
            fst (AddVote E (snd (AddVote E s v)) w) = None \<and>
            votes (snd (AddVote E (snd (AddVote E s v)) w)) = votes s @ [w])"
  using assms
  by (auto simp: AddVote_def countBallot_def storedDecodes_def split: option.splits sum.splits)

theorem AddVote_corrupt_witness:
  "AddVote toyElgamal (emptyBatch [[1] \<mapsto> []]) (mkVote [1] 5) =
     (Some (CorruptStoredBallot ()), emptyBatch [[1] \<mapsto> []]) \<and>
   fst (AddVote toyElgamal (snd (AddVote toyElgamal (emptyBatch [[1] \<mapsto> []]) (mkVote [1] 5))) (mkVote [2] 7)) = None \<and>
   votes (snd (AddVote toyElgamal (snd (AddVote toyElgamal (emptyBatch [[1] \<mapsto> []]) (mkVote [1] 5))) (mkVote [2] 7))) =
     [mkVote [2] 7]"
proof -
  have h1: "dbTx (emptyBatch [[1] \<mapsto> []]) \<noteq> None"
    by (simp add: emptyBatch_def)
  have h2: "length (votes (emptyBatch [[1] \<mapsto> []])) < VoteBatchSize toyElgamal"
    by (simp add: emptyBatch_def toyElgamal_def)
  have h3: "tree (emptyBatch [[1] \<mapsto> []]) (Nullifier (mkVote [1] 5)) = Some []"
    by (simp add: emptyBatch_def mkVote_def)
  have h4: "Deserialize toyElgamal [] = Inl ()"
    by (simp add: toyElgamal_def)
  have h5: "storedDecodes toyElgamal (emptyBatch [[1] \<mapsto> []]) (Nullifier (mkVote [2] 7))"
    by (simp add: storedDecodes_def emptyBatch_def mkVote_def)
  have v: "votes (emptyBatch [[1] \<mapsto> []]) = []"
    by (simp add: emptyBatch_def)
  show ?thesis
    using AddVote_corrupt [OF h1 h2 h3 h4] h5 v by auto
qed

subsection \<open>The capacity of a batch\<close>

text \<open>
  C9 (as stated, refuted). Claim: in an open batch \<open>AddVote\<close> succeeds while
  \<open>len(votes) < VoteBatchSize\<close>. Here the batch is open and empty, its capacity is 2, and
  the nullifier \<open>[1]\<close> is stored with bytes that do not decode: the call fails with the
  decoder's error.
\<close>

theorem AddVote_capacity_counterexample:
  "dbTx (emptyBatch [[1] \<mapsto> []]) \<noteq> None \<and>
   length (votes (emptyBatch [[1] \<mapsto> []])) < VoteBatchSize toyElgamal \<and>
   fst (AddVote toyElgamal (emptyBatch [[1] \<mapsto> []]) (mkVote [1] 5)) = Some (CorruptStoredBallot ()) \<and>
   fst (AddVote toyElgamal (emptyBatch [[1] \<mapsto> []]) (mkVote [1] 5)) \<noteq> None"
  by (simp add: AddVote_def toyElgamal_def emptyBatch_def mkVote_def)

text \<open>
  C9 (amended). In an open batch \<open>AddVote\<close> fails with \<open>BatchFull\<close>, changing nothing, exactly
  when \<open>len(votes) \<ge> VoteBatchSize\<close>; while \<open>len(votes) < VoteBatchSize\<close> it succeeds unless
  the ciphertext stored for the vote's nullifier does not decode. Hence, starting from an
  open empty batch, of \<open>VoteBatchSize + 1\<close> votes none of which has a stored ciphertext
  that does not decode, the first \<open>VoteBatchSize\<close> are accepted and the last fails with
  \<open>BatchFull\<close>.
\<close>

theorem AddVote_capacity:
  assumes "dbTx s \<noteq> None"
  shows "(VoteBatchSize E \<le> length (votes s) \<longrightarrow> AddVote E s v = (Some BatchFull, s)) \<and>
         (length (votes s) < VoteBatchSize E \<longrightarrow>
            fst (AddVote E s v) \<noteq> Some BatchFull \<and>
            (storedDecodes E s (Nullifier v) \<longrightarrow> fst (AddVote E s v) = None)) \<and>
         (votes s = [] \<and> length vs = VoteBatchSize E + 1 \<and>
          (\<forall>w\<in>set vs. storedDecodes E s (Nullifier w)) \<longrightarrow>
            fst (AddVotes E s vs) = replicate (VoteBatchSize E) None @ [Some BatchFull])"
proof (intro conjI impI)
  assume "VoteBatchSize E \<le> length (votes s)"
  then show "AddVote E s v = (Some BatchFull, s)"
    by (rule AddVote_full [OF assms])
next
  assume "length (votes s) < VoteBatchSize E"
  then show "fst (AddVote E s v) \<noteq> Some BatchFull"
    using assms by (auto simp: AddVote_def split: option.splits sum.splits)
next
  assume "length (votes s) < VoteBatchSize E" "storedDecodes E s (Nullifier v)"
  then show "fst (AddVote E s v) = None"
    using AddVote_ok(1) [OF assms] by blast
next
  assume a: "votes s = [] \<and> length vs = VoteBatchSize E + 1 \<and>
    (\<forall>w\<in>set vs. storedDecodes E s (Nullifier w))"
  then have "\<forall>w\<in>set vs. storedDecodes E s (Nullifier w)" by blast
  from AddVotes_capacity [OF assms this] a
  show "fst (AddVotes E s vs) = replicate (VoteBatchSize E) None @ [Some BatchFull]"
    by simp
qed

theorem AddVote_capacity_witness:
  "fst (AddVotes toyElgamal (emptyBatch Map.empty) [mkVote [1] 5, mkVote [2] 7, mkVote [3] 9]) =
     [None, None, Some BatchFull] \<and>
   AddVote toyElgamal
     (snd (AddVotes toyElgamal (emptyBatch Map.empty) [mkVote [1] 5, mkVote [2] 7])) (mkVote [3] 9) =
     (Some BatchFull, snd (AddVotes toyElgamal (emptyBatch Map.empty) [mkVote [1] 5, mkVote [2] 7])) \<and>
   fst (AddVote toyElgamal (emptyBatch Map.empty) (mkVote [1] 5)) = None"
proof -
  have h0: "dbTx (emptyBatch Map.empty) \<noteq> None"
    by (simp add: emptyBatch_def)
  have h1: "dbTx (snd (AddVotes toyElgamal (emptyBatch Map.empty) [mkVote [1] 5, mkVote [2] 7])) \<noteq> None"
    by (simp add: AddVote_def countBallot_def toyElgamal_def emptyBatch_def mkVote_def)
  have full: "VoteBatchSize toyElgamal \<le>
      length (votes (snd (AddVotes toyElgamal (emptyBatch Map.empty) [mkVote [1] 5, mkVote [2] 7])))"
    by (simp add: AddVote_def countBallot_def toyElgamal_def emptyBatch_def mkVote_def)
  have room: "length (votes (emptyBatch Map.empty)) < VoteBatchSize toyElgamal"
    by (simp add: toyElgamal_def emptyBatch_def)
  have dec: "storedDecodes toyElgamal (emptyBatch Map.empty) n" for n
    by (simp add: storedDecodes_def emptyBatch_def)
  have three: "votes (emptyBatch Map.empty) = [] \<and>
      length [mkVote [1] 5, mkVote [2] 7, mkVote [3] 9] = VoteBatchSize toyElgamal + 1 \<and>
      (\<forall>w\<in>set [mkVote [1] 5, mkVote [2] 7, mkVote [3] 9].
         storedDecodes toyElgamal (emptyBatch Map.empty) (Nullifier w))"
    by (simp add: dec) (simp add: toyElgamal_def emptyBatch_def)
  have vbs: "replicate (VoteBatchSize toyElgamal) (None :: unit AddVoteError option) = [None, None]"
    by (simp add: toyElgamal_def numeral_2_eq_2)
  show ?thesis
    using AddVote_capacity [OF h0, of toyElgamal "mkVote [1] 5" "[mkVote [1] 5, mkVote [2] 7, mkVote [3] 9]"]
      AddVote_capacity [OF h1, of toyElgamal "mkVote [3] 9" "[]"]
      full room dec three vbs
    by simp
qed

section \<open>Properties of the BabyJubJub wrapper\<close>

text \<open>
  C6 (the code departs from the claim). Claim: after \<open>g.Neg(a)\<close> the receiver holds \<open>-a\<close>,
  so that \<open>add(a, g)\<close> is the identity, whatever the receiver held before. With a fresh
  receiver (the identity \<open>(0, 1)\<close>) the call leaves the identity in the receiver for every
  argument \<open>a\<close>; for \<open>a\<close> the generator \<open>B8\<close>, adding \<open>a\<close> and the result gives \<open>B8\<close>
  again, which is not the identity.
\<close>

theorem BJJ_Neg_fresh_receiver:
  "BJJ_Neg BJJ_New a = BJJ_New \<and>
   BJJ_Add BJJ_New BJJ_B8 (BJJ_Neg BJJ_New BJJ_B8) = BJJ_B8 \<and>
   \<not> BJJ_Equal (BJJ_Add BJJ_New BJJ_B8 (BJJ_Neg BJJ_New BJJ_B8)) BJJ_New"
proof -
  have q: "(1::int) mod ffQ = 1" "(0::int) mod ffQ = 0"
    by (simp_all add: ffQ_def)
  have inv1: "ffInverse 1 = 1"
    by (simp add: ffInverse_def q)
  have neg: "BJJ_Neg BJJ_New b = BJJ_New" for b
    by (simp add: BJJ_Neg_def BJJ_New_def Projective_def Affine_def ffNeg_def ffMul_def inv1 q)
  have sum: "PointProjective_Add (Projective (inner BJJ_B8)) (Projective (inner BJJ_New)) =
      \<lparr>PX = X (inner BJJ_B8), PY = Y (inner BJJ_B8), PZ = 1\<rparr>"
    by code_simp
  have red: "X (inner BJJ_B8) mod ffQ = X (inner BJJ_B8)" "Y (inner BJJ_B8) mod ffQ = Y (inner BJJ_B8)"
    by code_simp+
  have aff: "Affine \<lparr>PX = X (inner BJJ_B8), PY = Y (inner BJJ_B8), PZ = 1\<rparr> = inner BJJ_B8"
    by (simp add: Affine_def inv1 ffMul_def red)
  have add: "BJJ_Add BJJ_New BJJ_B8 BJJ_New = BJJ_B8"
    unfolding BJJ_Add_def sum aff by (simp add: BJJ_New_def BJJ_B8_def)
  have ne: "\<not> BJJ_Equal BJJ_B8 BJJ_New"
    by (simp add: BJJ_Equal_def BJJ_B8_def BJJ_New_def)
  show ?thesis
    by (simp add: neg add ne)
qed

section \<open>Consequences of the group contract\<close>
lemma gc_laws:
  assumes "group_contract C"
  shows "int discreteLogMaxMessage < Order C"
    and "\<forall>a b c. G1_Add C (G1_Add C a b) c = G1_Add C a (G1_Add C b c)"
    and "\<forall>a b. G1_Add C a b = G1_Add C b a"
    and "\<forall>a. G1_Add C (G1_Zero C) a = a"
    and "\<forall>a. G1_Add C (G1_Neg C a) a = G1_Zero C"
    and "\<forall>p. G1_ScalarMult C p 0 = G1_Zero C"
    and "\<forall>p k. 0 \<le> k \<longrightarrow> G1_ScalarMult C p (k + 1) = G1_Add C (G1_ScalarMult C p k) p"
    and "\<forall>p. G1_ScalarMult C p (Order C) = G1_Zero C"
    and "\<forall>k. 0 \<le> k \<longrightarrow> G1_ScalarMult C (G1_ScalarBaseMult C 1) k = G1_ScalarBaseMult C k"
    and "\<forall>k. 0 < k \<and> k < Order C \<longrightarrow> G1_ScalarBaseMult C k \<noteq> G1_Zero C"
    and "\<forall>a b. G1_Equal C a b \<longleftrightarrow> a = b"
    and "inj (G1_String C)"
  using assms unfolding group_contract_def by - (elim conjE, assumption)+

lemma gc_order_large: "group_contract C \<Longrightarrow> int discreteLogMaxMessage < Order C"
  by (rule gc_laws(1))

lemma gc_order: "group_contract C \<Longrightarrow> 1 < Order C"
  using gc_laws(1) [of C] by (simp add: discreteLogMaxMessage_def)

lemma gc_assoc: "group_contract C \<Longrightarrow> G1_Add C (G1_Add C a b) c = G1_Add C a (G1_Add C b c)"
  using gc_laws(2) [of C] by blast

lemma gc_comm: "group_contract C \<Longrightarrow> G1_Add C a b = G1_Add C b a"
  using gc_laws(3) [of C] by blast

lemma gc_zero_left: "group_contract C \<Longrightarrow> G1_Add C (G1_Zero C) a = a"
  using gc_laws(4) [of C] by blast

lemma gc_neg_left: "group_contract C \<Longrightarrow> G1_Add C (G1_Neg C a) a = G1_Zero C"
  using gc_laws(5) [of C] by blast

lemma gc_smul_0: "group_contract C \<Longrightarrow> G1_ScalarMult C p 0 = G1_Zero C"
  using gc_laws(6) [of C] by blast

lemma gc_smul_step:
  "group_contract C \<Longrightarrow> 0 \<le> k \<Longrightarrow> G1_ScalarMult C p (k + 1) = G1_Add C (G1_ScalarMult C p k) p"
  using gc_laws(7) [of C] by blast

lemma gc_smul_order: "group_contract C \<Longrightarrow> G1_ScalarMult C p (Order C) = G1_Zero C"
  using gc_laws(8) [of C] by blast

lemma gc_base':
  "group_contract C \<Longrightarrow> 0 \<le> k \<Longrightarrow> G1_ScalarMult C (G1_ScalarBaseMult C 1) k = G1_ScalarBaseMult C k"
  using gc_laws(9) [of C] by blast

lemma gc_base_nonzero:
  "group_contract C \<Longrightarrow> 0 < k \<Longrightarrow> k < Order C \<Longrightarrow> G1_ScalarBaseMult C k \<noteq> G1_Zero C"
  using gc_laws(10) [of C] by blast

lemma gc_equal: "group_contract C \<Longrightarrow> G1_Equal C a b \<longleftrightarrow> a = b"
  using gc_laws(11) [of C] by blast

lemma gc_string: "group_contract C \<Longrightarrow> inj (G1_String C)"
  by (rule gc_laws(12))

lemma gc_base:
  "group_contract C \<Longrightarrow> 0 \<le> k \<Longrightarrow> G1_ScalarBaseMult C k = G1_ScalarMult C (G1_ScalarBaseMult C 1) k"
  by (rule gc_base' [symmetric])

lemma gc_zero_right: "group_contract C \<Longrightarrow> G1_Add C a (G1_Zero C) = a"
  using gc_comm [of C a "G1_Zero C"] gc_zero_left [of C a] by simp

lemma gc_neg_right: "group_contract C \<Longrightarrow> G1_Add C a (G1_Neg C a) = G1_Zero C"
  using gc_comm [of C a "G1_Neg C a"] gc_neg_left [of C a] by simp

lemma gc_cancel_right:
  assumes "group_contract C" "G1_Add C a c = G1_Add C b c"
  shows "a = b"
proof -
  have "G1_Add C (G1_Add C a c) (G1_Neg C c) = G1_Add C (G1_Add C b c) (G1_Neg C c)"
    using assms(2) by simp
  then show ?thesis
    by (simp add: gc_assoc [OF assms(1)] gc_neg_right [OF assms(1)] gc_zero_right [OF assms(1)])
qed

lemma gc_smul_Suc:
  assumes "group_contract C"
  shows "G1_ScalarMult C p (int (Suc n)) = G1_Add C (G1_ScalarMult C p (int n)) p"
proof -
  have "int (Suc n) = int n + 1" by simp
  then show ?thesis
    using gc_smul_step [OF assms, of "int n" p] by (simp add: add.commute)
qed

lemma gc_smul_add_nat:
  assumes "group_contract C"
  shows "G1_ScalarMult C p (int (a + b)) = G1_Add C (G1_ScalarMult C p (int a)) (G1_ScalarMult C p (int b))"
proof (induction b)
  case 0
  then show ?case by (simp add: gc_smul_0 [OF assms] gc_zero_right [OF assms])
next
  case (Suc b)
  have "G1_ScalarMult C p (int (a + Suc b)) = G1_ScalarMult C p (int (Suc (a + b)))" by simp
  also have "\<dots> = G1_Add C (G1_ScalarMult C p (int (a + b))) p"
    by (rule gc_smul_Suc [OF assms])
  also have "\<dots> = G1_Add C (G1_Add C (G1_ScalarMult C p (int a)) (G1_ScalarMult C p (int b))) p"
    by (simp only: Suc.IH)
  also have "\<dots> = G1_Add C (G1_ScalarMult C p (int a)) (G1_Add C (G1_ScalarMult C p (int b)) p)"
    by (rule gc_assoc [OF assms])
  also have "\<dots> = G1_Add C (G1_ScalarMult C p (int a)) (G1_ScalarMult C p (int (Suc b)))"
    by (simp only: gc_smul_Suc [OF assms])
  finally show ?case .
qed

lemma gc_smul_add:
  assumes "group_contract C" "0 \<le> a" "0 \<le> b"
  shows "G1_ScalarMult C p (a + b) = G1_Add C (G1_ScalarMult C p a) (G1_ScalarMult C p b)"
proof -
  have "G1_ScalarMult C p (int (nat a + nat b)) =
      G1_Add C (G1_ScalarMult C p (int (nat a))) (G1_ScalarMult C p (int (nat b)))"
    by (rule gc_smul_add_nat [OF assms(1)])
  then show ?thesis
    using assms(2,3) by simp
qed

lemma gc_smul_zero_point_nat:
  assumes "group_contract C"
  shows "G1_ScalarMult C (G1_Zero C) (int n) = G1_Zero C"
proof (induction n)
  case 0
  then show ?case by (simp add: gc_smul_0 [OF assms])
next
  case (Suc n)
  show ?case
    by (simp only: gc_smul_Suc [OF assms] Suc.IH gc_zero_right [OF assms])
qed

lemma gc_smul_zero_point:
  assumes "group_contract C" "0 \<le> k"
  shows "G1_ScalarMult C (G1_Zero C) k = G1_Zero C"
  using gc_smul_zero_point_nat [OF assms(1), of "nat k"] assms(2) by simp

lemma gc_smul_smul_nat:
  assumes "group_contract C"
  shows "G1_ScalarMult C (G1_ScalarMult C p (int a)) (int b) = G1_ScalarMult C p (int (a * b))"
proof (induction b)
  case 0
  then show ?case by (simp add: gc_smul_0 [OF assms])
next
  case (Suc b)
  have "G1_ScalarMult C p (int (a * Suc b)) = G1_ScalarMult C p (int (a * b + a))"
    by (simp add: add.commute)
  also have "\<dots> = G1_Add C (G1_ScalarMult C p (int (a * b))) (G1_ScalarMult C p (int a))"
    by (rule gc_smul_add_nat [OF assms])
  also have "\<dots> = G1_Add C (G1_ScalarMult C (G1_ScalarMult C p (int a)) (int b)) (G1_ScalarMult C p (int a))"
    by (simp only: Suc.IH)
  also have "\<dots> = G1_ScalarMult C (G1_ScalarMult C p (int a)) (int (Suc b))"
    by (simp only: gc_smul_Suc [OF assms])
  finally show ?case by simp
qed

lemma gc_smul_smul:
  assumes "group_contract C" "0 \<le> a" "0 \<le> b"
  shows "G1_ScalarMult C (G1_ScalarMult C p a) b = G1_ScalarMult C p (a * b)"
proof -
  have "G1_ScalarMult C (G1_ScalarMult C p (int (nat a))) (int (nat b)) =
      G1_ScalarMult C p (int (nat a * nat b))"
    by (rule gc_smul_smul_nat [OF assms(1)])
  then show ?thesis
    using assms(2,3) by simp
qed

lemma gc_smul_order_mult:
  assumes "group_contract C" "0 \<le> k"
  shows "G1_ScalarMult C p (Order C * k) = G1_Zero C"
proof -
  have "0 \<le> Order C" using gc_order [OF assms(1)] by simp
  from gc_smul_smul [OF assms(1) this assms(2), of p, symmetric] show ?thesis
    by (simp add: gc_smul_order [OF assms(1)] gc_smul_zero_point [OF assms])
qed

lemma gc_smul_mod:
  assumes "group_contract C" "0 \<le> k"
  shows "G1_ScalarMult C p (k mod Order C) = G1_ScalarMult C p k"
proof -
  have N: "0 < Order C" using gc_order [OF assms(1)] by simp
  have d: "0 \<le> k div Order C" using assms(2) N by (simp add: pos_imp_zdiv_nonneg_iff)
  have m: "0 \<le> k mod Order C" using N by simp
  have d': "0 \<le> Order C * (k div Order C)" using N d by simp
  have "G1_ScalarMult C p k = G1_ScalarMult C p (Order C * (k div Order C) + k mod Order C)"
    by simp
  also have "\<dots> = G1_Add C (G1_ScalarMult C p (Order C * (k div Order C))) (G1_ScalarMult C p (k mod Order C))"
    by (rule gc_smul_add [OF assms(1) d' m])
  also have "\<dots> = G1_ScalarMult C p (k mod Order C)"
    by (simp only: gc_smul_order_mult [OF assms(1) d] gc_zero_left [OF assms(1)])
  finally show ?thesis by simp
qed

lemma gc_base_add:
  assumes "group_contract C" "0 \<le> a" "0 \<le> b"
  shows "G1_ScalarBaseMult C (a + b) = G1_Add C (G1_ScalarBaseMult C a) (G1_ScalarBaseMult C b)"
proof -
  have ab: "0 \<le> a + b" using assms(2,3) by simp
  show ?thesis
    unfolding gc_base [OF assms(1) ab] gc_base [OF assms(1,2)] gc_base [OF assms(1,3)]
    by (rule gc_smul_add [OF assms])
qed

lemma gc_base_0:
  assumes "group_contract C"
  shows "G1_ScalarBaseMult C 0 = G1_Zero C"
  using gc_base [OF assms, of 0] by (simp add: gc_smul_0 [OF assms])

lemma gc_base_mod:
  assumes "group_contract C" "0 \<le> k"
  shows "G1_ScalarBaseMult C (k mod Order C) = G1_ScalarBaseMult C k"
proof -
  have m: "0 \<le> k mod Order C" using gc_order [OF assms(1)] by simp
  show ?thesis
    unfolding gc_base [OF assms(1) m] gc_base [OF assms]
    by (rule gc_smul_mod [OF assms])
qed

lemma gc_base_eq_iff:
  assumes "group_contract C" "0 \<le> a" "0 \<le> b"
  shows "G1_ScalarBaseMult C a = G1_ScalarBaseMult C b \<longleftrightarrow> a mod Order C = b mod Order C"
proof
  assume "a mod Order C = b mod Order C"
  then show "G1_ScalarBaseMult C a = G1_ScalarBaseMult C b"
    using gc_base_mod [OF assms(1,2)] gc_base_mod [OF assms(1,3)] by simp
next
  assume eq: "G1_ScalarBaseMult C a = G1_ScalarBaseMult C b"
  have N: "0 < Order C" using gc_order [OF assms(1)] by simp
  have small: "x = y" if "0 \<le> x" "x \<le> y" "y < Order C"
    "G1_ScalarBaseMult C x = G1_ScalarBaseMult C y" for x y
  proof (rule ccontr)
    assume "x \<noteq> y"
    then have pos: "0 < y - x" "y - x < Order C" using that by simp_all
    have "G1_ScalarBaseMult C y = G1_ScalarBaseMult C ((y - x) + x)" by simp
    also have "\<dots> = G1_Add C (G1_ScalarBaseMult C (y - x)) (G1_ScalarBaseMult C x)"
      using pos that by (intro gc_base_add [OF assms(1)]) simp_all
    finally have "G1_Add C (G1_Zero C) (G1_ScalarBaseMult C x) =
        G1_Add C (G1_ScalarBaseMult C (y - x)) (G1_ScalarBaseMult C x)"
      using that(4) by (simp add: gc_zero_left [OF assms(1)])
    then have "G1_Zero C = G1_ScalarBaseMult C (y - x)"
      by (rule gc_cancel_right [OF assms(1)])
    then show False using gc_base_nonzero [OF assms(1) pos] by simp
  qed
  let ?a = "a mod Order C" and ?b = "b mod Order C"
  have e: "G1_ScalarBaseMult C ?a = G1_ScalarBaseMult C ?b"
    using eq gc_base_mod [OF assms(1,2)] gc_base_mod [OF assms(1,3)] by simp
  have r: "0 \<le> ?a" "?a < Order C" "0 \<le> ?b" "?b < Order C" using N by simp_all
  show "?a = ?b"
  proof (cases "?a \<le> ?b")
    case True
    from small [OF r(1) True r(4) e] show ?thesis .
  next
    case False
    then have le: "?b \<le> ?a" by simp
    from small [OF r(3) le r(2) e [symmetric]] show ?thesis by (rule sym)
  qed
qed

declare worker.simps [simp del]
declare babySteps_loop.simps [simp del]
declare giantSteps_loop.simps [simp del]

lemma gc_inverse_unique:
  assumes "group_contract C" "G1_Add C x a = G1_Zero C"
  shows "x = G1_Neg C a"
proof -
  have "G1_Add C x a = G1_Add C (G1_Neg C a) a"
    using assms(2) by (simp add: gc_neg_left [OF assms(1)])
  then show ?thesis by (rule gc_cancel_right [OF assms(1)])
qed

lemma gc_sub_eq_iff:
  assumes "group_contract C"
  shows "G1_Add C M (G1_Neg C B) = J \<longleftrightarrow> M = G1_Add C J B"
proof
  assume "G1_Add C M (G1_Neg C B) = J"
  then have "G1_Add C J B = G1_Add C (G1_Add C M (G1_Neg C B)) B" by simp
  also have "\<dots> = M"
    by (simp add: gc_assoc [OF assms] gc_neg_left [OF assms] gc_zero_right [OF assms])
  finally show "M = G1_Add C J B" by simp
next
  assume "M = G1_Add C J B"
  then show "G1_Add C M (G1_Neg C B) = J"
    by (simp add: gc_assoc [OF assms] gc_neg_right [OF assms] gc_zero_right [OF assms])
qed

lemma gc_neg_add:
  assumes "group_contract C"
  shows "G1_Add C (G1_Neg C a) (G1_Neg C b) = G1_Neg C (G1_Add C a b)"
proof (rule gc_inverse_unique [OF assms])
  have "G1_Add C (G1_Add C (G1_Neg C a) (G1_Neg C b)) (G1_Add C a b) =
      G1_Add C (G1_Add C (G1_Neg C a) a) (G1_Add C (G1_Neg C b) b)"
    using gc_assoc [OF assms] gc_comm [OF assms] by metis
  then show "G1_Add C (G1_Add C (G1_Neg C a) (G1_Neg C b)) (G1_Add C a b) = G1_Zero C"
    by (simp add: gc_neg_left [OF assms] gc_zero_left [OF assms])
qed

lemma gc_neg_zero:
  assumes "group_contract C"
  shows "G1_Neg C (G1_Zero C) = G1_Zero C"
  using gc_inverse_unique [OF assms, of "G1_Zero C" "G1_Zero C"]
  by (simp add: gc_zero_left [OF assms])

lemma gc_smul_neg_nat:
  assumes "group_contract C"
  shows "G1_ScalarMult C (G1_Neg C p) (int n) = G1_Neg C (G1_ScalarMult C p (int n))"
proof (induction n)
  case 0
  then show ?case by (simp add: gc_smul_0 [OF assms] gc_neg_zero [OF assms])
next
  case (Suc n)
  show ?case
    by (simp only: gc_smul_Suc [OF assms] Suc.IH gc_neg_add [OF assms])
qed

lemma gc_base_mult_nat:
  assumes "group_contract C"
  shows "G1_ScalarMult C (G1_ScalarBaseMult C (int a)) (int b) = G1_ScalarBaseMult C (int (a * b))"
proof -
  have "G1_ScalarMult C (G1_ScalarMult C (G1_ScalarBaseMult C 1) (int a)) (int b) =
      G1_ScalarMult C (G1_ScalarBaseMult C 1) (int (a * b))"
    by (rule gc_smul_smul_nat [OF assms])
  then show ?thesis
    by (simp only: gc_base' [OF assms] of_nat_0_le_iff)
qed

lemma gc_base_add_nat:
  assumes "group_contract C"
  shows "G1_ScalarBaseMult C (int (a + b)) = G1_Add C (G1_ScalarBaseMult C (int a)) (G1_ScalarBaseMult C (int b))"
  using gc_base_add [OF assms, of "int a" "int b"] by simp

lemma gc_base_eq_small:
  assumes "group_contract C" "int a < Order C" "int b < Order C"
    "G1_ScalarBaseMult C (int a) = G1_ScalarBaseMult C (int b)"
  shows "a = b"
proof -
  have "int a mod Order C = int b mod Order C"
    using gc_base_eq_iff [OF assms(1), of "int a" "int b"] assms(4) by simp
  then show ?thesis using assms(2,3) by simp
qed

section \<open>Facts about the brute-force search\<close>

lemma worker_None_iff:
  "group_contract C \<Longrightarrow>
   worker C m i stop = None \<longleftrightarrow> (\<forall>y. i \<le> y \<and> y \<le> stop \<longrightarrow> G1_ScalarBaseMult C (int y) \<noteq> m)"
proof (induction C m i stop rule: worker.induct)
  case (1 C m i stop)
  note gc = "1.prems"
  show ?case
  proof (cases "i \<le> stop")
    case False
    then show ?thesis by (subst worker.simps) auto
  next
    case True
    note le = this
    show ?thesis
    proof (cases "G1_Equal C (G1_ScalarBaseMult C (int i)) m")
      case True
      then have "G1_ScalarBaseMult C (int i) = m" by (simp add: gc_equal [OF gc])
      then show ?thesis using le True by (subst worker.simps) auto
    next
      case False
      then have ne: "G1_ScalarBaseMult C (int i) \<noteq> m" by (simp add: gc_equal [OF gc])
      have "worker C m i stop = worker C m (Suc i) stop"
        using le False by (subst worker.simps) simp
      also have "\<dots> = None \<longleftrightarrow> (\<forall>y. Suc i \<le> y \<and> y \<le> stop \<longrightarrow> G1_ScalarBaseMult C (int y) \<noteq> m)"
        by (rule "1.IH" [OF le False gc])
      also have "\<dots> \<longleftrightarrow> (\<forall>y. i \<le> y \<and> y \<le> stop \<longrightarrow> G1_ScalarBaseMult C (int y) \<noteq> m)"
        using ne by (metis Suc_leD Suc_leI le_neq_implies_less)
      finally show ?thesis .
    qed
  qed
qed

lemma worker_Some:
  "group_contract C \<Longrightarrow> worker C m i stop = Some x \<Longrightarrow>
   i \<le> x \<and> x \<le> stop \<and> G1_ScalarBaseMult C (int x) = m"
proof (induction C m i stop rule: worker.induct)
  case (1 C m i stop)
  note gc = "1.prems"(1) and res = "1.prems"(2)
  show ?case
  proof (cases "i \<le> stop")
    case False
    then show ?thesis using res by (subst (asm) worker.simps) simp
  next
    case True
    note le = this
    show ?thesis
    proof (cases "G1_Equal C (G1_ScalarBaseMult C (int i)) m")
      case True
      then have "G1_ScalarBaseMult C (int i) = m" by (simp add: gc_equal [OF gc])
      moreover have "x = i" using res le True by (subst (asm) worker.simps) simp
      ultimately show ?thesis using le by simp
    next
      case False
      have "worker C m (Suc i) stop = Some x"
        using res le False by (subst (asm) worker.simps) simp
      from "1.IH" [OF le False gc this] show ?thesis by simp
    qed
  qed
qed

lemma collectResults_Inl_iff:
  "collectResults rs = Inl e \<longleftrightarrow> e = DiscreteLogUnsolved \<and> (\<forall>r\<in>set rs. r = None)"
  by (induction rs rule: collectResults.induct) auto

lemma collectResults_Inr:
  "collectResults rs = Inr y \<Longrightarrow> \<exists>x. Some x \<in> set rs \<and> y = int x"
  by (induction rs rule: collectResults.induct) auto

lemma workerRange_eq:
  "workerRange w = (w * 11200000000, if w = 9 then 112000000000 else w * 11200000000 + 11199999999)"
  by (simp add: workerRange_def discreteLogMaxMessage_def numWorkersDiscreteLogBruteForce_def Let_def)

lemma workerRange_bound:
  assumes "w < numWorkersDiscreteLogBruteForce"
  shows "snd (workerRange w) \<le> discreteLogMaxMessage"
  using assms
  by (simp add: workerRange_eq discreteLogMaxMessage_def numWorkersDiscreteLogBruteForce_def)

lemma workerRange_cover:
  assumes "x \<le> discreteLogMaxMessage"
  shows "\<exists>w<numWorkersDiscreteLogBruteForce. fst (workerRange w) \<le> x \<and> x \<le> snd (workerRange w)"
proof (cases "x div 11200000000 < 9")
  case True
  have "x div 11200000000 * 11200000000 \<le> x" by simp
  moreover have "x < (x div 11200000000) * 11200000000 + 11200000000"
    using div_mult_mod_eq [of x 11200000000] mod_less_divisor [of 11200000000 x] by linarith
  ultimately show ?thesis
    using True
    by (intro exI [of _ "x div 11200000000"])
      (simp add: workerRange_eq numWorkersDiscreteLogBruteForce_def)
next
  case False
  then have "9 * 11200000000 \<le> x"
    by (simp add: not_less less_eq_div_iff_mult_less_eq)
  then show ?thesis
    using assms
    by (intro exI [of _ 9])
      (simp add: workerRange_eq numWorkersDiscreteLogBruteForce_def discreteLogMaxMessage_def)
qed

lemma bruteForce_Inl_iff:
  assumes "group_contract C" "schedule_ok sched"
  shows "bruteForce C sched m = Inl e \<longleftrightarrow>
         e = DiscreteLogUnsolved \<and> (\<forall>x\<le>discreteLogMaxMessage. G1_ScalarBaseMult C (int x) \<noteq> m)"
proof -
  have set: "set sched = {0..<numWorkersDiscreteLogBruteForce}"
    using assms(2) by (simp add: schedule_ok_def)
  have "(\<forall>w\<in>set sched. worker C m (fst (workerRange w)) (snd (workerRange w)) = None) \<longleftrightarrow>
        (\<forall>x\<le>discreteLogMaxMessage. G1_ScalarBaseMult C (int x) \<noteq> m)"
    (is "?L \<longleftrightarrow> ?R")
  proof
    assume L: ?L
    show ?R
    proof (intro allI impI)
      fix x assume "x \<le> discreteLogMaxMessage"
      from workerRange_cover [OF this] obtain w where
        w: "w < numWorkersDiscreteLogBruteForce" "fst (workerRange w) \<le> x" "x \<le> snd (workerRange w)"
        by blast
      then have "worker C m (fst (workerRange w)) (snd (workerRange w)) = None"
        using L set by simp
      then show "G1_ScalarBaseMult C (int x) \<noteq> m"
        using w by (simp add: worker_None_iff [OF assms(1)])
    qed
  next
    assume R: ?R
    show ?L
    proof
      fix w assume "w \<in> set sched"
      then have "w < numWorkersDiscreteLogBruteForce" using set by simp
      from workerRange_bound [OF this] R
      show "worker C m (fst (workerRange w)) (snd (workerRange w)) = None"
        by (simp add: worker_None_iff [OF assms(1)])
    qed
  qed
  then show ?thesis
    by (simp add: bruteForce_def collectResults_Inl_iff split_beta)
qed

lemma bruteForce_Inr:
  assumes "group_contract C" "schedule_ok sched" "bruteForce C sched m = Inr y"
  shows "0 \<le> y \<and> y \<le> int discreteLogMaxMessage \<and> G1_ScalarBaseMult C y = m"
proof -
  have set: "set sched = {0..<numWorkersDiscreteLogBruteForce}"
    using assms(2) by (simp add: schedule_ok_def)
  from collectResults_Inr [OF assms(3) [unfolded bruteForce_def]]
  obtain x w where y: "y = int x" and w: "w \<in> set sched"
    and r: "worker C m (fst (workerRange w)) (snd (workerRange w)) = Some x"
    by (auto simp: split_beta)
  from worker_Some [OF assms(1) r] have "x \<le> snd (workerRange w)" "G1_ScalarBaseMult C (int x) = m"
    by simp_all
  moreover have "snd (workerRange w) \<le> discreteLogMaxMessage"
    using w set by (intro workerRange_bound) simp
  ultimately show ?thesis using y by simp
qed

lemma bruteForce_roundtrip:
  assumes "group_contract C" "schedule_ok sched" "int discreteLogMaxMessage < Order C"
    "x \<le> discreteLogMaxMessage"
  shows "bruteForce C sched (G1_ScalarBaseMult C (int x)) = Inr (int x)"
proof (cases "bruteForce C sched (G1_ScalarBaseMult C (int x))")
  case (Inl e)
  then show ?thesis
    using assms(4) by (auto simp: bruteForce_Inl_iff [OF assms(1,2)])
next
  case (Inr y)
  from bruteForce_Inr [OF assms(1,2) Inr]
  have y: "0 \<le> y" "y \<le> int discreteLogMaxMessage" "G1_ScalarBaseMult C y = G1_ScalarBaseMult C (int x)"
    by simp_all
  have "G1_ScalarBaseMult C (int (nat y)) = G1_ScalarBaseMult C (int x)"
    using y by simp
  then have "nat y = x"
    using y assms(3,4) by (intro gc_base_eq_small [OF assms(1)]) simp_all
  then show ?thesis using Inr y by simp
qed

section \<open>Facts about Baby-Step-Giant-Step\<close>
lemma mSqrt_eq: "mSqrt = 334665"
proof -
  have lo: "(334664::real) \<le> sqrt 112000000000"
    by (rule real_le_rsqrt) simp
  have hi: "sqrt 112000000000 < (334665::real)"
    by (rule real_less_lsqrt) simp_all
  have "\<lfloor>sqrt (112000000000::real)\<rfloor> = 334664"
    using lo hi by (simp add: floor_eq_iff)
  then show ?thesis
    by (simp add: mSqrt_def discreteLogMaxMessage_def)
qed

lemma mSqrt_pos: "0 < mSqrt"
  by (simp add: mSqrt_eq)

lemma maxMessage_less: "discreteLogMaxMessage < mSqrt * mSqrt"
  by (simp add: mSqrt_eq discreteLogMaxMessage_def)

lemma mSqrt_le_maxMessage: "mSqrt \<le> discreteLogMaxMessage"
  by (simp add: mSqrt_eq discreteLogMaxMessage_def)

lemma babySteps_sound:
  "group_contract C \<Longrightarrow> G = G1_ScalarBaseMult C 1 \<Longrightarrow> babyStep = G1_ScalarBaseMult C (int j) \<Longrightarrow>
   babySteps_loop C G j babyStep T k = Some v \<Longrightarrow>
   T k = Some v \<or> (j \<le> v \<and> v < mSqrt \<and> G1_String C (G1_ScalarBaseMult C (int v)) = k)"
proof (induction C G j babyStep T rule: babySteps_loop.induct)
  case (1 C G j babyStep T)
  note gc = "1.prems"(1) and G = "1.prems"(2) and bs = "1.prems"(3) and res = "1.prems"(4)
  show ?case
  proof (cases "j < mSqrt")
    case False
    then show ?thesis using res by (subst (asm) babySteps_loop.simps) simp
  next
    case True
    have next': "G1_Add C babyStep G = G1_ScalarBaseMult C (int (Suc j))"
      using gc_base_add_nat [OF gc, of j 1] by (simp add: bs G)
    have "babySteps_loop C G (Suc j) (G1_Add C babyStep G) (T(G1_String C babyStep \<mapsto> j)) k = Some v"
      using res True by (subst (asm) babySteps_loop.simps) simp
    from "1.IH" [OF True gc G next' this]
    show ?thesis using True bs by (auto split: if_splits)
  qed
qed

lemma babySteps_complete:
  "group_contract C \<Longrightarrow> G = G1_ScalarBaseMult C 1 \<Longrightarrow> babyStep = G1_ScalarBaseMult C (int j) \<Longrightarrow>
   T k \<noteq> None \<or> (\<exists>v. j \<le> v \<and> v < mSqrt \<and> G1_String C (G1_ScalarBaseMult C (int v)) = k) \<Longrightarrow>
   babySteps_loop C G j babyStep T k \<noteq> None"
proof (induction C G j babyStep T rule: babySteps_loop.induct)
  case (1 C G j babyStep T)
  note gc = "1.prems"(1) and G = "1.prems"(2) and bs = "1.prems"(3) and hit = "1.prems"(4)
  show ?case
  proof (cases "j < mSqrt")
    case False
    then show ?thesis using hit by (subst babySteps_loop.simps) auto
  next
    case True
    have next': "G1_Add C babyStep G = G1_ScalarBaseMult C (int (Suc j))"
      using gc_base_add_nat [OF gc, of j 1] by (simp add: bs G)
    have hit': "(T(G1_String C babyStep \<mapsto> j)) k \<noteq> None \<or>
        (\<exists>v. Suc j \<le> v \<and> v < mSqrt \<and> G1_String C (G1_ScalarBaseMult C (int v)) = k)"
    proof (cases "G1_String C babyStep = k")
      case True
      then show ?thesis by simp
    next
      case False
      with hit bs show ?thesis
        by (auto simp: Suc_le_eq) (metis le_neq_implies_less)
    qed
    have eq: "babySteps_loop C G j babyStep T k =
        babySteps_loop C G (Suc j) (G1_Add C babyStep G) (T(G1_String C babyStep \<mapsto> j)) k"
      using True by (subst babySteps_loop.simps) simp
    from "1.IH" [OF True gc G next' hit'] show ?thesis unfolding eq .
  qed
qed

lemma babySteps_table_Some:
  assumes "group_contract C"
    and "babySteps_loop C (G1_ScalarBaseMult C 1) 0 (G1_Zero C) Map.empty (G1_String C p) = Some v"
  shows "v < mSqrt \<and> G1_ScalarBaseMult C (int v) = p"
proof -
  have z: "G1_Zero C = G1_ScalarBaseMult C (int 0)"
    by (simp add: gc_base_0 [OF assms(1)])
  from babySteps_sound [OF assms(1) refl z assms(2)]
  have "v < mSqrt" "G1_String C (G1_ScalarBaseMult C (int v)) = G1_String C p" by simp_all
  then show ?thesis
    using gc_string [OF assms(1)] by (simp add: inj_eq)
qed

lemma babySteps_table_None_iff:
  assumes "group_contract C"
  shows "babySteps_loop C (G1_ScalarBaseMult C 1) 0 (G1_Zero C) Map.empty (G1_String C p) = None \<longleftrightarrow>
         (\<forall>v<mSqrt. G1_ScalarBaseMult C (int v) \<noteq> p)"
proof -
  have z: "G1_Zero C = G1_ScalarBaseMult C (int 0)"
    by (simp add: gc_base_0 [OF assms(1)])
  show ?thesis
  proof
    assume n: "babySteps_loop C (G1_ScalarBaseMult C 1) 0 (G1_Zero C) Map.empty (G1_String C p) = None"
    show "\<forall>v<mSqrt. G1_ScalarBaseMult C (int v) \<noteq> p"
    proof (intro allI impI notI)
      fix v assume "v < mSqrt" "G1_ScalarBaseMult C (int v) = p"
      then have "Map.empty (G1_String C p) \<noteq> None \<or>
          (\<exists>v. 0 \<le> v \<and> v < mSqrt \<and> G1_String C (G1_ScalarBaseMult C (int v)) = G1_String C p)"
        by blast
      from babySteps_complete [OF assms(1) refl z this] n show False by simp
    qed
  next
    assume a: "\<forall>v<mSqrt. G1_ScalarBaseMult C (int v) \<noteq> p"
    show "babySteps_loop C (G1_ScalarBaseMult C 1) 0 (G1_Zero C) Map.empty (G1_String C p) = None"
    proof (rule ccontr)
      assume "babySteps_loop C (G1_ScalarBaseMult C 1) 0 (G1_Zero C) Map.empty (G1_String C p) \<noteq> None"
      then obtain v where
        "babySteps_loop C (G1_ScalarBaseMult C 1) 0 (G1_Zero C) Map.empty (G1_String C p) = Some v"
        by blast
      from babySteps_table_Some [OF assms(1) this] a show False by blast
    qed
  qed
qed

lemma giantSteps_Inl_iff:
  "group_contract C \<Longrightarrow> giantStep = G1_Add C M (G1_ScalarMult C c (int i)) \<Longrightarrow>
   giantSteps_loop C T c i giantStep = Inl e \<longleftrightarrow>
   e = DiscreteLogUnsolvedBSGS \<and>
   (\<forall>i'. i \<le> i' \<and> i' \<le> mSqrt \<longrightarrow> T (G1_String C (G1_Add C M (G1_ScalarMult C c (int i')))) = None)"
proof (induction C T c i giantStep rule: giantSteps_loop.induct)
  case (1 C T c i giantStep)
  note gc = "1.prems"(1) and gs = "1.prems"(2)
  show ?case
  proof (cases "i \<le> mSqrt")
    case False
    then show ?thesis by (subst giantSteps_loop.simps) auto
  next
    case True
    note le = this
    show ?thesis
    proof (cases "T (G1_String C giantStep)")
      case (Some j)
      then show ?thesis using le gs by (subst giantSteps_loop.simps) auto
    next
      case None
      have next': "G1_Add C giantStep c = G1_Add C M (G1_ScalarMult C c (int (Suc i)))"
        by (simp only: gs gc_smul_Suc [OF gc] gc_assoc [OF gc])
      have "giantSteps_loop C T c i giantStep = giantSteps_loop C T c (Suc i) (G1_Add C giantStep c)"
        using le None by (subst giantSteps_loop.simps) simp
      also have "\<dots> = Inl e \<longleftrightarrow> e = DiscreteLogUnsolvedBSGS \<and>
          (\<forall>i'. Suc i \<le> i' \<and> i' \<le> mSqrt \<longrightarrow> T (G1_String C (G1_Add C M (G1_ScalarMult C c (int i')))) = None)"
        by (rule "1.IH" [OF le None gc next'])
      also have "\<dots> \<longleftrightarrow> e = DiscreteLogUnsolvedBSGS \<and>
          (\<forall>i'. i \<le> i' \<and> i' \<le> mSqrt \<longrightarrow> T (G1_String C (G1_Add C M (G1_ScalarMult C c (int i')))) = None)"
        using None gs by (metis Suc_leD Suc_leI le_neq_implies_less)
      finally show ?thesis .
    qed
  qed
qed

lemma giantSteps_Inr:
  "group_contract C \<Longrightarrow> giantStep = G1_Add C M (G1_ScalarMult C c (int i)) \<Longrightarrow>
   giantSteps_loop C T c i giantStep = Inr y \<Longrightarrow>
   \<exists>i' j. i \<le> i' \<and> i' \<le> mSqrt \<and>
     T (G1_String C (G1_Add C M (G1_ScalarMult C c (int i')))) = Some j \<and>
     y = int (i' * mSqrt) + int j \<and>
     (\<forall>i''. i \<le> i'' \<and> i'' < i' \<longrightarrow> T (G1_String C (G1_Add C M (G1_ScalarMult C c (int i'')))) = None)"
proof (induction C T c i giantStep rule: giantSteps_loop.induct)
  case (1 C T c i giantStep)
  note gc = "1.prems"(1) and gs = "1.prems"(2) and res = "1.prems"(3)
  show ?case
  proof (cases "i \<le> mSqrt")
    case False
    then show ?thesis using res by (subst (asm) giantSteps_loop.simps) simp
  next
    case True
    note le = this
    show ?thesis
    proof (cases "T (G1_String C giantStep)")
      case (Some j)
      then have "y = int (i * mSqrt) + int j"
        using res le by (subst (asm) giantSteps_loop.simps) simp
      then show ?thesis
        using Some le gs by - (rule exI [of _ i], rule exI [of _ j], auto)
    next
      case None
      have next': "G1_Add C giantStep c = G1_Add C M (G1_ScalarMult C c (int (Suc i)))"
        by (simp only: gs gc_smul_Suc [OF gc] gc_assoc [OF gc])
      have "giantSteps_loop C T c (Suc i) (G1_Add C giantStep c) = Inr y"
        using res le None by (subst (asm) giantSteps_loop.simps) simp
      from "1.IH" [OF le None gc next' this] obtain i' j where
        ij: "Suc i \<le> i'" "i' \<le> mSqrt"
          "T (G1_String C (G1_Add C M (G1_ScalarMult C c (int i')))) = Some j"
          "y = int (i' * mSqrt) + int j"
          "\<forall>i''. Suc i \<le> i'' \<and> i'' < i' \<longrightarrow> T (G1_String C (G1_Add C M (G1_ScalarMult C c (int i'')))) = None"
        by blast
      have "\<forall>i''. i \<le> i'' \<and> i'' < i' \<longrightarrow> T (G1_String C (G1_Add C M (G1_ScalarMult C c (int i'')))) = None"
        using ij(5) None gs by (metis Suc_leI le_neq_implies_less)
      with ij show ?thesis
        by - (rule exI [of _ i'], rule exI [of _ j], auto)
    qed
  qed
qed

lemma bsgs_giant_point:
  assumes "group_contract C"
  shows "G1_Add C M (G1_ScalarMult C (G1_Neg C (G1_ScalarBaseMult C (int mSqrt))) (int i)) =
         G1_Add C M (G1_Neg C (G1_ScalarBaseMult C (int (mSqrt * i))))"
  by (simp only: gc_smul_neg_nat [OF assms] gc_base_mult_nat [OF assms])

lemma bsgs_hit_iff:
  assumes "group_contract C"
  shows "G1_ScalarBaseMult C (int v) = G1_Add C M (G1_Neg C (G1_ScalarBaseMult C (int (mSqrt * i)))) \<longleftrightarrow>
         G1_ScalarBaseMult C (int (v + mSqrt * i)) = M"
  using gc_sub_eq_iff [OF assms, of M "G1_ScalarBaseMult C (int (mSqrt * i))" "G1_ScalarBaseMult C (int v)"]
  by (auto simp only: gc_base_add_nat [OF assms])

lemma bsgs_lookup_None_iff:
  assumes "group_contract C"
  shows "babySteps_loop C (G1_ScalarBaseMult C 1) 0 (G1_Zero C) Map.empty
           (G1_String C (G1_Add C M (G1_ScalarMult C (G1_Neg C (G1_ScalarBaseMult C (int mSqrt))) (int i)))) = None \<longleftrightarrow>
         (\<forall>v<mSqrt. G1_ScalarBaseMult C (int (v + mSqrt * i)) \<noteq> M)"
  by (simp only: babySteps_table_None_iff [OF assms] bsgs_giant_point [OF assms] bsgs_hit_iff [OF assms])

lemma bsgs_lookup_Some:
  assumes "group_contract C"
    and "babySteps_loop C (G1_ScalarBaseMult C 1) 0 (G1_Zero C) Map.empty
           (G1_String C (G1_Add C M (G1_ScalarMult C (G1_Neg C (G1_ScalarBaseMult C (int mSqrt))) (int i)))) = Some v"
  shows "v < mSqrt \<and> G1_ScalarBaseMult C (int (v + mSqrt * i)) = M"
  using babySteps_table_Some [OF assms]
  by (simp only: bsgs_giant_point [OF assms(1)] bsgs_hit_iff [OF assms(1)])

lemma range_split:
  "(\<forall>i\<le>m. \<forall>v<m. P (v + m * i)) \<longleftrightarrow> (\<forall>x < m * (m + 1). P x)" if "0 < m" for m :: nat
proof
  assume a: "\<forall>i\<le>m. \<forall>v<m. P (v + m * i)"
  show "\<forall>x < m * (m + 1). P x"
  proof (intro allI impI)
    fix x assume x: "x < m * (m + 1)"
    have "x div m \<le> m"
      using x that by (metis Suc_eq_plus1 less_Suc_eq_le less_mult_imp_div_less mult.commute)
    moreover have "x mod m < m" using that by simp
    ultimately have "P (x mod m + m * (x div m))" using a by blast
    then show "P x" by simp
  qed
next
  assume a: "\<forall>x < m * (m + 1). P x"
  show "\<forall>i\<le>m. \<forall>v<m. P (v + m * i)"
  proof (intro allI impI)
    fix i v assume "i \<le> m" "v < m"
    then have "v + m * i < m + m * m"
      by (meson add_less_le_mono mult_le_mono2)
    then show "P (v + m * i)" using a by simp
  qed
qed

lemma babyStepGiantStep_Inl_iff:
  assumes "group_contract C"
  shows "babyStepGiantStep C M = Inl e \<longleftrightarrow>
         e = DiscreteLogUnsolvedBSGS \<and> (\<forall>x < mSqrt * (mSqrt + 1). G1_ScalarBaseMult C (int x) \<noteq> M)"
proof -
  have z: "M = G1_Add C M (G1_ScalarMult C (G1_Neg C (G1_ScalarBaseMult C (int mSqrt))) (int 0))"
    by (simp add: gc_smul_0 [OF assms] gc_zero_right [OF assms])
  have "babyStepGiantStep C M = Inl e \<longleftrightarrow> e = DiscreteLogUnsolvedBSGS \<and>
      (\<forall>i. 0 \<le> i \<and> i \<le> mSqrt \<longrightarrow> (\<forall>v<mSqrt. G1_ScalarBaseMult C (int (v + mSqrt * i)) \<noteq> M))"
    unfolding babyStepGiantStep_def Let_def
    by (simp only: giantSteps_Inl_iff [OF assms z] bsgs_lookup_None_iff [OF assms])
  also have "(\<forall>i. 0 \<le> i \<and> i \<le> mSqrt \<longrightarrow> (\<forall>v<mSqrt. G1_ScalarBaseMult C (int (v + mSqrt * i)) \<noteq> M)) \<longleftrightarrow>
      (\<forall>x < mSqrt * (mSqrt + 1). G1_ScalarBaseMult C (int x) \<noteq> M)"
    using range_split [OF mSqrt_pos, of "\<lambda>x. G1_ScalarBaseMult C (int x) \<noteq> M"] by simp
  finally show ?thesis .
qed

lemma babyStepGiantStep_Inr:
  assumes "group_contract C" "babyStepGiantStep C M = Inr y"
  shows "\<exists>i v. i \<le> mSqrt \<and> v < mSqrt \<and> y = int (v + mSqrt * i) \<and>
           G1_ScalarBaseMult C y = M \<and> (\<forall>x < mSqrt * i. G1_ScalarBaseMult C (int x) \<noteq> M)"
proof -
  have z: "M = G1_Add C M (G1_ScalarMult C (G1_Neg C (G1_ScalarBaseMult C (int mSqrt))) (int 0))"
    by (simp add: gc_smul_0 [OF assms(1)] gc_zero_right [OF assms(1)])
  from giantSteps_Inr [OF assms(1) z assms(2) [unfolded babyStepGiantStep_def Let_def]]
  obtain i v where i: "i \<le> mSqrt"
    and hit: "babySteps_loop C (G1_ScalarBaseMult C 1) 0 (G1_Zero C) Map.empty
           (G1_String C (G1_Add C M (G1_ScalarMult C (G1_Neg C (G1_ScalarBaseMult C (int mSqrt))) (int i)))) = Some v"
    and y: "y = int (i * mSqrt) + int v"
    and first: "\<forall>i''. 0 \<le> i'' \<and> i'' < i \<longrightarrow>
      babySteps_loop C (G1_ScalarBaseMult C 1) 0 (G1_Zero C) Map.empty
           (G1_String C (G1_Add C M (G1_ScalarMult C (G1_Neg C (G1_ScalarBaseMult C (int mSqrt))) (int i'')))) = None"
    by blast
  from bsgs_lookup_Some [OF assms(1) hit] have v: "v < mSqrt" "G1_ScalarBaseMult C (int (v + mSqrt * i)) = M"
    by simp_all
  have y': "y = int (v + mSqrt * i)" using y by (simp add: mult.commute)
  have "\<forall>x < mSqrt * i. G1_ScalarBaseMult C (int x) \<noteq> M"
  proof (intro allI impI)
    fix x assume x: "x < mSqrt * i"
    then have "x div mSqrt < i"
      using mSqrt_pos by (simp add: less_mult_imp_div_less mult.commute)
    with first have "\<forall>v<mSqrt. G1_ScalarBaseMult C (int (v + mSqrt * (x div mSqrt))) \<noteq> M"
      by (simp add: bsgs_lookup_None_iff [OF assms(1)])
    moreover have "x mod mSqrt < mSqrt" using mSqrt_pos by simp
    ultimately have "G1_ScalarBaseMult C (int (x mod mSqrt + mSqrt * (x div mSqrt))) \<noteq> M" by blast
    then show "G1_ScalarBaseMult C (int x) \<noteq> M" by simp
  qed
  with i v y' show ?thesis by blast
qed

lemma babyStepGiantStep_roundtrip:
  assumes "group_contract C" "int discreteLogMaxMessage < Order C" "x \<le> discreteLogMaxMessage"
  shows "babyStepGiantStep C (G1_ScalarBaseMult C (int x)) = Inr (int x)"
proof (cases "babyStepGiantStep C (G1_ScalarBaseMult C (int x))")
  case (Inl e)
  have "x < mSqrt * (mSqrt + 1)"
    using assms(3) maxMessage_less by simp
  with Inl show ?thesis
    by (auto simp: babyStepGiantStep_Inl_iff [OF assms(1)])
next
  case (Inr y)
  from babyStepGiantStep_Inr [OF assms(1) Inr] obtain i v where
    iv: "i \<le> mSqrt" "v < mSqrt" "y = int (v + mSqrt * i)"
      "G1_ScalarBaseMult C y = G1_ScalarBaseMult C (int x)"
      "\<forall>x' < mSqrt * i. G1_ScalarBaseMult C (int x') \<noteq> G1_ScalarBaseMult C (int x)"
    by blast
  define n where "n = v + mSqrt * i"
  have le: "mSqrt * i \<le> x"
  proof (rule ccontr)
    assume "\<not> mSqrt * i \<le> x"
    then have "x < mSqrt * i" by simp
    with iv(5) show False by blast
  qed
  have n_lt: "n < x + mSqrt" using le iv(2) by (simp add: n_def)
  have xN: "int x < Order C" using assms(2,3) by simp
  have mN: "int mSqrt \<le> Order C" using assms(2) mSqrt_le_maxMessage by simp
  have "int n mod Order C = int x mod Order C"
    using gc_base_eq_iff [OF assms(1), of "int n" "int x"] iv(3,4) by (simp add: n_def)
  then have modx: "int n mod Order C = int x" using xN by simp
  have "int n = int x"
  proof (rule ccontr)
    assume ne: "int n \<noteq> int x"
    have N: "0 < Order C" using gc_order [OF assms(1)] by simp
    have "int n = Order C * (int n div Order C) + int x"
      using modx by (metis mult_div_mod_eq)
    moreover have "0 \<le> int n div Order C" using N by (simp add: pos_imp_zdiv_nonneg_iff)
    ultimately have "1 \<le> int n div Order C" using ne by (cases "int n div Order C = 0") auto
    then have "Order C * 1 \<le> Order C * (int n div Order C)"
      using N by (intro mult_left_mono) simp_all
    then have "Order C + int x \<le> int n"
      using \<open>int n = Order C * (int n div Order C) + int x\<close> by simp
    then show False using n_lt mN by simp
  qed
  then show ?thesis using Inr iv(3) by (simp add: n_def)
qed

section \<open>The integers modulo \<open>2^64\<close> meet the contract\<close>

declare decimal.simps [simp del]

lemma decimal_nonempty: "decimal n \<noteq> []"
  by (subst decimal.simps) simp

lemma decimal_last: "last (decimal n) = char_of (48 + n mod 10)"
  by (subst decimal.simps) simp

lemma decimal_butlast: "butlast (decimal n) = (if n < 10 then [] else decimal (n div 10))"
  by (subst decimal.simps) simp

lemma decimal_digit_inj:
  assumes "(char_of (48 + a mod 10 :: nat) :: char) = char_of (48 + b mod 10 :: nat)"
  shows "a mod 10 = b mod 10"
proof -
  have "(48 + a mod 10) mod 256 = (48 + b mod 10) mod 256"
    using assms by (simp only: char_of_eq_iff take_bit_eq_mod) simp
  moreover have "48 + a mod 10 < 256" "48 + b mod 10 < 256"
    using mod_less_divisor [of 10 a] mod_less_divisor [of 10 b] by linarith+
  ultimately show ?thesis by simp
qed

lemma decimal_inj_aux: "decimal n = decimal m \<Longrightarrow> n = m"
proof (induction n arbitrary: m rule: less_induct)
  case (less n)
  have l: "n mod 10 = m mod 10"
    using decimal_last [of n] decimal_last [of m] less.prems decimal_digit_inj by simp
  have b: "(if n < 10 then [] else decimal (n div 10)) = (if m < 10 then [] else decimal (m div 10))"
    using decimal_butlast [of n] decimal_butlast [of m] less.prems by simp
  show ?case
  proof (cases "n < 10")
    case True
    then have "m < 10" using b decimal_nonempty [of "m div 10"] by (auto split: if_splits)
    with True l show ?thesis by simp
  next
    case False
    then have m: "\<not> m < 10" using b decimal_nonempty [of "n div 10"] by (auto split: if_splits)
    with False b have "decimal (n div 10) = decimal (m div 10)" by simp
    moreover have "n div 10 < n" using False by simp
    ultimately have "n div 10 = m div 10" by (rule less.IH [rotated])
    with l show ?thesis by (metis div_mult_mod_eq)
  qed
qed

lemma decimal_inj: "inj decimal"
  by (rule injI) (rule decimal_inj_aux)

lemma W64_simps [simp]:
  "Order W64 = 2 ^ 64"
  "G1_Zero W64 = 0"
  "G1_Add W64 a b = a + b"
  "G1_Neg W64 a = - a"
  "G1_ScalarMult W64 p k = word_of_int k * p"
  "G1_ScalarBaseMult W64 k = word_of_int k"
  "G1_Equal W64 a b \<longleftrightarrow> a = b"
  "G1_String W64 a = decimal (unat a)"
  by (simp_all add: W64_def)

lemma W64_base_nonzero:
  assumes "0 < k" "k < 2 ^ 64"
  shows "(word_of_int k :: 64 word) \<noteq> 0"
proof
  assume "(word_of_int k :: 64 word) = 0"
  then have "(2 :: int) ^ 64 dvd k" by (simp add: word_of_int_eq_0_iff)
  then have "2 ^ 64 \<le> k" using assms(1) by (rule zdvd_imp_le)
  with assms(2) show False by simp
qed

lemma W64_string_inj: "inj (G1_String W64)"
proof (rule injI)
  fix a b :: "64 word"
  assume "G1_String W64 a = G1_String W64 b"
  then have "unat a = unat b" by (simp add: decimal_inj_aux)
  then show "a = b" by (simp add: word_unat_eq_iff)
qed

lemma W64_contract: "group_contract W64"
  unfolding group_contract_def
proof (intro conjI allI impI)
  show "int discreteLogMaxMessage < Order W64" by (simp add: discreteLogMaxMessage_def)
  show "inj (G1_String W64)" by (rule W64_string_inj)
  show "G1_ScalarMult W64 p (Order W64) = G1_Zero W64" for p
  proof -
    have "(word_of_int (2 ^ 64) :: 64 word) = 0"
      by (simp only: word_of_int_eq_0_iff) simp
    then show ?thesis by (simp only: W64_simps) simp
  qed
  show "G1_ScalarBaseMult W64 k \<noteq> G1_Zero W64" if "0 < k \<and> k < Order W64" for k
    using that W64_base_nonzero [of k] by simp
qed (simp_all add: algebra_simps)

lemma inOrder_ok: "schedule_ok inOrder"
  by (auto simp: schedule_ok_def inOrder_def numWorkersDiscreteLogBruteForce_def)

section \<open>Properties of the discrete logarithm\<close>

text \<open>
  C2 (confirmed). For every \<open>x\<close> with \<open>0 \<le> x \<le> discreteLogMaxMessage\<close>, the discrete
  logarithm of the point \<open>scalarMultiplyBase(x)\<close> is exactly \<open>x\<close> under strategy A (the
  parallel brute force, whatever the order in which the ten workers report) and under
  strategy B (Baby-Step-Giant-Step); so the two strategies return the same scalar, and so
  does the code of \<open>CombinePartialDecryptions\<close> that selects one of them by the variable
  \<open>useBabyStepGiantStep\<close>. The group is any that meets the contract of the data model.
\<close>

theorem discreteLog_roundtrip:
  assumes "group_contract C"
    and "schedule_ok sched"
    and "x \<le> discreteLogMaxMessage"
  shows "bruteForce C sched (G1_ScalarBaseMult C (int x)) = Inr (int x) \<and>
         babyStepGiantStep C (G1_ScalarBaseMult C (int x)) = Inr (int x) \<and>
         bruteForce C sched (G1_ScalarBaseMult C (int x)) = babyStepGiantStep C (G1_ScalarBaseMult C (int x)) \<and>
         recoverScalar C useBabyStepGiantStep sched (G1_ScalarBaseMult C (int x)) = Inr (int x)"
proof -
  have a: "bruteForce C sched (G1_ScalarBaseMult C (int x)) = Inr (int x)"
    by (rule bruteForce_roundtrip [OF assms(1,2) gc_order_large [OF assms(1)] assms(3)])
  have b: "babyStepGiantStep C (G1_ScalarBaseMult C (int x)) = Inr (int x)"
    by (rule babyStepGiantStep_roundtrip [OF assms(1) gc_order_large [OF assms(1)] assms(3)])
  show ?thesis by (simp add: a b recoverScalar_def)
qed

theorem discreteLog_roundtrip_witness:
  "group_contract W64 \<and> schedule_ok inOrder \<and> (42 :: nat) \<le> discreteLogMaxMessage \<and>
   bruteForce W64 inOrder (G1_ScalarBaseMult W64 42) = Inr 42 \<and>
   babyStepGiantStep W64 (G1_ScalarBaseMult W64 42) = Inr 42 \<and>
   recoverScalar W64 True inOrder (G1_ScalarBaseMult W64 42) = Inr 42 \<and>
   recoverScalar W64 False inOrder (G1_ScalarBaseMult W64 42) = Inr 42"
proof -
  have le: "(42 :: nat) \<le> discreteLogMaxMessage" by (simp add: discreteLogMaxMessage_def)
  show ?thesis
    using discreteLog_roundtrip [OF W64_contract inOrder_ok le, of True]
      discreteLog_roundtrip [OF W64_contract inOrder_ok le, of False]
    by (simp add: W64_contract inOrder_ok le)
qed

lemma bruteForce_Inl_workers:
  assumes "schedule_ok sched"
  shows "bruteForce C sched M = Inl e \<longleftrightarrow>
         e = DiscreteLogUnsolved \<and>
         (\<forall>w<numWorkersDiscreteLogBruteForce. worker C M (fst (workerRange w)) (snd (workerRange w)) = None)"
proof -
  have set: "set sched = {0..<numWorkersDiscreteLogBruteForce}"
    using assms by (simp add: schedule_ok_def)
  show ?thesis
    by (auto simp: bruteForce_def collectResults_Inl_iff split_beta set)
qed

lemma giantPoint_eq:
  assumes "group_contract C"
  shows "giantPoint C M i =
         G1_Add C M (G1_ScalarMult C (G1_Neg C (G1_ScalarBaseMult C (int mSqrt))) (int i))"
proof (induction i)
  case 0
  show ?case by (simp add: gc_smul_0 [OF assms] gc_zero_right [OF assms])
next
  case (Suc i)
  show ?case
    by (simp only: giantPoint.simps Suc.IH gc_smul_Suc [OF assms] gc_assoc [OF assms])
qed

lemma babyStepGiantStep_Inl_table:
  assumes "group_contract C"
  shows "babyStepGiantStep C M = Inl e \<longleftrightarrow>
         e = DiscreteLogUnsolvedBSGS \<and> (\<forall>i\<le>mSqrt. babyTable C (G1_String C (giantPoint C M i)) = None)"
proof -
  have z: "M = G1_Add C M (G1_ScalarMult C (G1_Neg C (G1_ScalarBaseMult C (int mSqrt))) (int 0))"
    by (simp add: gc_smul_0 [OF assms] gc_zero_right [OF assms])
  show ?thesis
    unfolding babyStepGiantStep_def Let_def babyTable_def
    by (simp only: giantSteps_Inl_iff [OF assms z] giantPoint_eq [OF assms]) simp
qed

lemma babyStepGiantStep_roundtrip_wide:
  assumes "group_contract C" "int (mSqrt * (mSqrt + 1)) \<le> Order C" "x < mSqrt * (mSqrt + 1)"
  shows "babyStepGiantStep C (G1_ScalarBaseMult C (int x)) = Inr (int x)"
proof (cases "babyStepGiantStep C (G1_ScalarBaseMult C (int x))")
  case (Inl e)
  with assms(3) show ?thesis
    by (auto simp: babyStepGiantStep_Inl_iff [OF assms(1)])
next
  case (Inr y)
  from babyStepGiantStep_Inr [OF assms(1) Inr] obtain i v where
    iv: "i \<le> mSqrt" "v < mSqrt" "y = int (v + mSqrt * i)"
      "G1_ScalarBaseMult C y = G1_ScalarBaseMult C (int x)"
    by blast
  have "v + mSqrt * i < mSqrt + mSqrt * mSqrt"
    using iv(1,2) by (meson add_less_le_mono mult_le_mono2)
  then have "v + mSqrt * i < mSqrt * (mSqrt + 1)" by simp
  then have "int (v + mSqrt * i) < Order C" using assms(2) by linarith
  moreover have "int x < Order C" using assms(2,3) by linarith
  ultimately have "v + mSqrt * i = x"
    using iv(3,4) by (intro gc_base_eq_small [OF assms(1)]) simp_all
  then show ?thesis using Inr iv(3) by simp
qed

lemma base_unique_small:
  assumes "group_contract C" "int a < Order C" "int b < Order C" "a \<noteq> b"
  shows "G1_ScalarBaseMult C (int a) \<noteq> G1_ScalarBaseMult C (int b)"
  using gc_base_eq_small [OF assms(1,2,3)] assms(4) by blast

text \<open>
  C5 (corrected). Claim: each strategy fails if and only if no \<open>x\<close> with
  \<open>0 \<le> x \<le> discreteLogMaxMessage\<close> has \<open>x\<cdot>G\<close> equal to the point. For the brute force this
  holds. Baby-Step-Giant-Step looks through \<open>i \<le> mSqrt\<close> giant steps and \<open>j < mSqrt\<close> baby
  steps, that is through every \<open>x < mSqrt \<cdot> (mSqrt + 1) = 112000996890\<close>, which is more
  than \<open>discreteLogMaxMessage + 1 = 112000000001\<close>: in the group of the integers modulo
  \<open>2^64\<close> the point \<open>112000000001\<cdot>G\<close> is \<open>x\<cdot>G\<close> for no \<open>x \<le> discreteLogMaxMessage\<close>, and
  Baby-Step-Giant-Step returns the scalar \<open>112000000001\<close> for it, not an error (giant step
  \<open>i = 334663\<close> hits the baby step \<open>j = 7106\<close>). It is so in every group of the contract
  whose order is at least \<open>112000996890\<close> (\<open>babyStepGiantStep_roundtrip_wide\<close>).
\<close>

theorem discreteLog_failure_counterexample:
  "group_contract W64 \<and>
   \<not> (\<exists>x. x \<le> discreteLogMaxMessage \<and>
          G1_ScalarBaseMult W64 (int x) = G1_ScalarBaseMult W64 112000000001) \<and>
   babyStepGiantStep W64 (G1_ScalarBaseMult W64 112000000001) = Inr 112000000001"
proof -
  have wide: "int (mSqrt * (mSqrt + 1)) \<le> Order W64" by (simp add: mSqrt_eq)
  have lt: "112000000001 < mSqrt * (mSqrt + 1)" by (simp add: mSqrt_eq)
  have "babyStepGiantStep W64 (G1_ScalarBaseMult W64 (int 112000000001)) = Inr (int 112000000001)"
    by (rule babyStepGiantStep_roundtrip_wide [OF W64_contract wide lt])
  then have r: "babyStepGiantStep W64 (G1_ScalarBaseMult W64 112000000001) = Inr 112000000001"
    by simp
  have "G1_ScalarBaseMult W64 (int x) \<noteq> G1_ScalarBaseMult W64 (int 112000000001)"
    if "x \<le> discreteLogMaxMessage" for x
    using that
    by (intro base_unique_small [OF W64_contract]) (simp_all add: discreteLogMaxMessage_def)
  then have n: "\<not> (\<exists>x. x \<le> discreteLogMaxMessage \<and>
          G1_ScalarBaseMult W64 (int x) = G1_ScalarBaseMult W64 112000000001)"
    by auto
  show ?thesis using W64_contract r n by blast
qed

text \<open>
  C5, as the code has it. In a group that meets the contract, and for every order in which
  the workers report: the brute force fails (with the error of line 126) exactly when no
  \<open>x \<le> discreteLogMaxMessage\<close> has \<open>x\<cdot>G\<close> equal to the point, which is exactly when each
  of the ten workers exhausts its range without a match; Baby-Step-Giant-Step fails (with
  the error of line 206) exactly when no \<open>x < mSqrt \<cdot> (mSqrt + 1)\<close> has \<open>x\<cdot>G\<close> equal to the
  point, which is exactly when no giant step \<open>i \<le> mSqrt\<close> hits the table, where
  \<open>mSqrt = 334665\<close>; for a point \<open>x\<cdot>G\<close> with \<open>x \<le> discreteLogMaxMessage\<close> both
  strategies return the scalar \<open>x\<close>, not an error; and a scalar that a strategy returns
  is a discrete logarithm of the point, within the range that the strategy searches.
\<close>

theorem discreteLog_failure:
  assumes "group_contract C"
    and "schedule_ok sched"
  shows "(bruteForce C sched M = Inl DiscreteLogUnsolved \<longleftrightarrow>
            (\<forall>x\<le>discreteLogMaxMessage. G1_ScalarBaseMult C (int x) \<noteq> M)) \<and>
         (bruteForce C sched M = Inl DiscreteLogUnsolved \<longleftrightarrow>
            (\<forall>w<numWorkersDiscreteLogBruteForce.
               worker C M (fst (workerRange w)) (snd (workerRange w)) = None)) \<and>
         (\<forall>e. bruteForce C sched M = Inl e \<longrightarrow> e = DiscreteLogUnsolved) \<and>
         (babyStepGiantStep C M = Inl DiscreteLogUnsolvedBSGS \<longleftrightarrow>
            (\<forall>x<mSqrt * (mSqrt + 1). G1_ScalarBaseMult C (int x) \<noteq> M)) \<and>
         (babyStepGiantStep C M = Inl DiscreteLogUnsolvedBSGS \<longleftrightarrow>
            (\<forall>i\<le>mSqrt. babyTable C (G1_String C (giantPoint C M i)) = None)) \<and>
         (\<forall>e. babyStepGiantStep C M = Inl e \<longrightarrow> e = DiscreteLogUnsolvedBSGS) \<and>
         (\<forall>x\<le>discreteLogMaxMessage. G1_ScalarBaseMult C (int x) = M \<longrightarrow>
            bruteForce C sched M = Inr (int x) \<and> babyStepGiantStep C M = Inr (int x)) \<and>
         (\<forall>y. bruteForce C sched M = Inr y \<longrightarrow>
            0 \<le> y \<and> y \<le> int discreteLogMaxMessage \<and> G1_ScalarBaseMult C y = M) \<and>
         (\<forall>y. babyStepGiantStep C M = Inr y \<longrightarrow>
            0 \<le> y \<and> y < int (mSqrt * (mSqrt + 1)) \<and> G1_ScalarBaseMult C y = M) \<and>
         mSqrt = 334665"
proof -
  have 1: "bruteForce C sched M = Inl DiscreteLogUnsolved \<longleftrightarrow>
            (\<forall>x\<le>discreteLogMaxMessage. G1_ScalarBaseMult C (int x) \<noteq> M)"
    by (simp add: bruteForce_Inl_iff [OF assms])
  have 2: "bruteForce C sched M = Inl DiscreteLogUnsolved \<longleftrightarrow>
            (\<forall>w<numWorkersDiscreteLogBruteForce.
               worker C M (fst (workerRange w)) (snd (workerRange w)) = None)"
    by (simp add: bruteForce_Inl_workers [OF assms(2)])
  have 3: "\<forall>e. bruteForce C sched M = Inl e \<longrightarrow> e = DiscreteLogUnsolved"
    by (simp add: bruteForce_Inl_iff [OF assms])
  have 4: "babyStepGiantStep C M = Inl DiscreteLogUnsolvedBSGS \<longleftrightarrow>
            (\<forall>x<mSqrt * (mSqrt + 1). G1_ScalarBaseMult C (int x) \<noteq> M)"
    by (simp add: babyStepGiantStep_Inl_iff [OF assms(1)])
  have 5: "babyStepGiantStep C M = Inl DiscreteLogUnsolvedBSGS \<longleftrightarrow>
            (\<forall>i\<le>mSqrt. babyTable C (G1_String C (giantPoint C M i)) = None)"
    by (simp add: babyStepGiantStep_Inl_table [OF assms(1)])
  have 6: "\<forall>e. babyStepGiantStep C M = Inl e \<longrightarrow> e = DiscreteLogUnsolvedBSGS"
    by (simp add: babyStepGiantStep_Inl_iff [OF assms(1)])
  have 7: "\<forall>x\<le>discreteLogMaxMessage. G1_ScalarBaseMult C (int x) = M \<longrightarrow>
            bruteForce C sched M = Inr (int x) \<and> babyStepGiantStep C M = Inr (int x)"
    using bruteForce_roundtrip [OF assms gc_order_large [OF assms(1)]]
      babyStepGiantStep_roundtrip [OF assms(1) gc_order_large [OF assms(1)]]
    by blast
  have 8: "\<forall>y. bruteForce C sched M = Inr y \<longrightarrow>
            0 \<le> y \<and> y \<le> int discreteLogMaxMessage \<and> G1_ScalarBaseMult C y = M"
    using bruteForce_Inr [OF assms] by blast
  have 9: "\<forall>y. babyStepGiantStep C M = Inr y \<longrightarrow>
            0 \<le> y \<and> y < int (mSqrt * (mSqrt + 1)) \<and> G1_ScalarBaseMult C y = M"
  proof (intro allI impI)
    fix y assume "babyStepGiantStep C M = Inr y"
    from babyStepGiantStep_Inr [OF assms(1) this] obtain i v where
      iv: "i \<le> mSqrt" "v < mSqrt" "y = int (v + mSqrt * i)" "G1_ScalarBaseMult C y = M"
      by blast
    have "v + mSqrt * i < mSqrt + mSqrt * mSqrt"
      using iv(1,2) by (meson add_less_le_mono mult_le_mono2)
    then have "v + mSqrt * i < mSqrt * (mSqrt + 1)" by simp
    then have "int (v + mSqrt * i) < int (mSqrt * (mSqrt + 1))" by (simp only: of_nat_less_iff)
    then have "y < int (mSqrt * (mSqrt + 1))" by (simp only: iv(3))
    moreover have "0 \<le> y" by (simp only: iv(3) of_nat_0_le_iff)
    ultimately show "0 \<le> y \<and> y < int (mSqrt * (mSqrt + 1)) \<and> G1_ScalarBaseMult C y = M"
      using iv(4) by blast
  qed
  show ?thesis by (intro conjI 1 2 3 4 5 6 7 8 9 mSqrt_eq)
qed

theorem discreteLog_failure_witness:
  "group_contract W64 \<and> schedule_ok inOrder \<and>
   bruteForce W64 inOrder (G1_ScalarBaseMult W64 (2 ^ 63)) = Inl DiscreteLogUnsolved \<and>
   babyStepGiantStep W64 (G1_ScalarBaseMult W64 (2 ^ 63)) = Inl DiscreteLogUnsolvedBSGS \<and>
   bruteForce W64 inOrder (G1_ScalarBaseMult W64 1000) = Inr 1000 \<and>
   babyStepGiantStep W64 (G1_ScalarBaseMult W64 1000) = Inr 1000"
proof -
  note fact = discreteLog_failure [OF W64_contract inOrder_ok]
  have far: "G1_ScalarBaseMult W64 (int x) \<noteq> G1_ScalarBaseMult W64 (2 ^ 63)"
    if "x < mSqrt * (mSqrt + 1)" for x
  proof -
    have "G1_ScalarBaseMult W64 (int x) \<noteq> G1_ScalarBaseMult W64 (int (2 ^ 63))"
      using that
      by (intro base_unique_small [OF W64_contract]) (simp_all add: mSqrt_eq)
    then show ?thesis by simp
  qed
  have far': "G1_ScalarBaseMult W64 (int x) \<noteq> G1_ScalarBaseMult W64 (2 ^ 63)"
    if "x \<le> discreteLogMaxMessage" for x
    using that maxMessage_less by (intro far) simp
  have a: "bruteForce W64 inOrder (G1_ScalarBaseMult W64 (2 ^ 63)) = Inl DiscreteLogUnsolved"
    using fact [of "G1_ScalarBaseMult W64 (2 ^ 63)"] far' by blast
  have b: "babyStepGiantStep W64 (G1_ScalarBaseMult W64 (2 ^ 63)) = Inl DiscreteLogUnsolvedBSGS"
    using fact [of "G1_ScalarBaseMult W64 (2 ^ 63)"] far by blast
  have le: "(1000 :: nat) \<le> discreteLogMaxMessage" by (simp add: discreteLogMaxMessage_def)
  have "bruteForce W64 inOrder (G1_ScalarBaseMult W64 (int 1000)) = Inr (int 1000) \<and>
        babyStepGiantStep W64 (G1_ScalarBaseMult W64 (int 1000)) = Inr (int 1000)"
    using fact [of "G1_ScalarBaseMult W64 (int 1000)"] le by blast
  then have c: "bruteForce W64 inOrder (G1_ScalarBaseMult W64 1000) = Inr 1000 \<and>
        babyStepGiantStep W64 (G1_ScalarBaseMult W64 1000) = Inr 1000"
    by simp
  show ?thesis using W64_contract inOrder_ok a b c by blast
qed

section \<open>Lagrange interpolation at zero\<close>
lemma lbasis_insert_self:
  assumes "finite R" "a \<notin> R"
  shows "lbasis (insert a R) a = (\<Prod>j\<in>R. j / (j - a))"
proof -
  have "insert a R - {a} = R" using assms(2) by blast
  then show ?thesis by (simp add: lbasis_def)
qed

lemma lbasis_insert_other:
  assumes "finite R" "a \<notin> R" "i \<in> R"
  shows "lbasis (insert a R) i = a / (a - i) * lbasis R i"
proof -
  have "insert a R - {i} = insert a (R - {i})" using assms(2,3) by blast
  moreover have "a \<notin> R - {i}" using assms(2) by blast
  ultimately show ?thesis using assms(1) by (simp add: lbasis_def)
qed

lemma partial_fractions:
  fixes x y a b :: "'a::field"
  assumes "x \<noteq> 0" "y \<noteq> 0" "x \<noteq> y"
  shows "a / x * (b / y) = b / (y - x) * (a / x) + a / (x - y) * (b / y)"
proof -
  define d where "d = y - x"
  have dnz: "d \<noteq> 0" using assms(3) by (simp add: d_def)
  have xy: "x - y = - d" by (simp add: d_def)
  have y: "y = x + d" by (simp add: d_def)
  have "b / d * (a / x) + a / (- d) * (b / y) = a / x * (b / y)"
    using assms(1,2) dnz by (simp add: field_simps) (simp add: y algebra_simps)
  then show ?thesis by (simp only: xy d_def [symmetric])
qed

lemma lbasis_unity:
  "finite S \<Longrightarrow> S \<noteq> {} \<Longrightarrow> (\<Sum>i\<in>S. lbasis S i) = 1"
proof (induction "card S" arbitrary: S rule: less_induct)
  case less
  note fin = less.prems(1) and ne = less.prems(2)
  from ne obtain a where a: "a \<in> S" by blast
  show ?case
  proof (cases "S - {a} = {}")
    case True
    then have "S = {a}" using a by blast
    then show ?thesis by (simp add: lbasis_def)
  next
    case False
    then obtain b where b: "b \<in> S" "b \<noteq> a" by blast
    define R where "R = S - {a, b}"
    have finR: "finite R" using fin by (simp add: R_def)
    have aR: "a \<notin> R" and bR: "b \<notin> R" by (simp_all add: R_def)
    have S: "S = insert a (insert b R)" using a b by (auto simp: R_def)
    have cardS: "card S = Suc (Suc (card R))"
      using finR aR bR b(2) by (simp add: S)
    have UA: "(\<Sum>i\<in>insert a R. lbasis (insert a R) i) = 1"
      using finR aR by (intro less.hyps) (simp_all add: cardS)
    have UB: "(\<Sum>i\<in>insert b R. lbasis (insert b R) i) = 1"
      using finR bR by (intro less.hyps) (simp_all add: cardS)
    define al where "al = b / (b - a)"
    define be where "be = a / (a - b)"
    have albe: "al + be = 1"
    proof -
      have nz: "b - a \<noteq> 0" using b(2) by simp
      have "a - b = - (b - a)" by simp
      then have "be = - (a / (b - a))" unfolding be_def by (simp only: divide_minus_right)
      then have "al + be = b / (b - a) - a / (b - a)" by (simp only: al_def) simp
      also have "\<dots> = (b - a) / (b - a)" by (simp only: diff_divide_distrib)
      also have "\<dots> = 1" using nz by simp
      finally show ?thesis .
    qed
    have Sa: "lbasis S a = al * lbasis (insert a R) a"
    proof -
      have "lbasis S a = (\<Prod>j\<in>insert b R. j / (j - a))"
        unfolding S using finR aR b(2) by (intro lbasis_insert_self) simp_all
      also have "\<dots> = b / (b - a) * (\<Prod>j\<in>R. j / (j - a))"
        using finR bR by simp
      finally show ?thesis
        by (simp add: al_def lbasis_insert_self [OF finR aR])
    qed
    have Sb: "lbasis S b = be * lbasis (insert b R) b"
    proof -
      have S': "S = insert b (insert a R)" using S by blast
      have "lbasis S b = (\<Prod>j\<in>insert a R. j / (j - b))"
        unfolding S' using finR bR b(2) by (intro lbasis_insert_self) simp_all
      also have "\<dots> = a / (a - b) * (\<Prod>j\<in>R. j / (j - b))"
        using finR aR by simp
      finally show ?thesis
        by (simp add: be_def lbasis_insert_self [OF finR bR])
    qed
    have Si: "lbasis S i = al * lbasis (insert a R) i + be * lbasis (insert b R) i" if "i \<in> R" for i
    proof -
      have ia: "a - i \<noteq> 0" and ib: "b - i \<noteq> 0" and ab: "a - i \<noteq> b - i"
        using that aR bR b(2) by auto
      have "lbasis S i = a / (a - i) * lbasis (insert b R) i"
        unfolding S using finR aR bR b(2) that by (intro lbasis_insert_other) simp_all
      also have "\<dots> = a / (a - i) * (b / (b - i) * lbasis R i)"
        by (simp only: lbasis_insert_other [OF finR bR that])
      also have "\<dots> = a / (a - i) * (b / (b - i)) * lbasis R i"
        by (simp only: mult.assoc)
      also have "a / (a - i) * (b / (b - i)) =
          b / ((b - i) - (a - i)) * (a / (a - i)) + a / ((a - i) - (b - i)) * (b / (b - i))"
        by (rule partial_fractions [OF ia ib ab])
      also have "\<dots> = al * (a / (a - i)) + be * (b / (b - i))"
        by (simp add: al_def be_def)
      also have "(al * (a / (a - i)) + be * (b / (b - i))) * lbasis R i =
          al * (a / (a - i) * lbasis R i) + be * (b / (b - i) * lbasis R i)"
        by (simp only: distrib_right mult.assoc)
      finally show ?thesis
        by (simp only: lbasis_insert_other [OF finR aR that] lbasis_insert_other [OF finR bR that])
    qed
    have "(\<Sum>i\<in>S. lbasis S i) = lbasis S a + (lbasis S b + (\<Sum>i\<in>R. lbasis S i))"
    proof -
      have "(\<Sum>i\<in>insert a (insert b R). lbasis S i) = lbasis S a + (lbasis S b + (\<Sum>i\<in>R. lbasis S i))"
        using finR aR bR b(2) by simp
      then show ?thesis by (simp only: S [symmetric])
    qed
    also have "(\<Sum>i\<in>R. lbasis S i) =
        (\<Sum>i\<in>R. al * lbasis (insert a R) i + be * lbasis (insert b R) i)"
      by (intro sum.cong refl) (rule Si)
    also have "\<dots> = al * (\<Sum>i\<in>R. lbasis (insert a R) i) + be * (\<Sum>i\<in>R. lbasis (insert b R) i)"
      by (simp only: sum.distrib sum_distrib_left)
    also have "lbasis S a + (lbasis S b + (al * (\<Sum>i\<in>R. lbasis (insert a R) i) + be * (\<Sum>i\<in>R. lbasis (insert b R) i))) =
        al * (lbasis (insert a R) a + (\<Sum>i\<in>R. lbasis (insert a R) i)) +
        be * (lbasis (insert b R) b + (\<Sum>i\<in>R. lbasis (insert b R) i))"
      by (simp only: Sa Sb distrib_left) (simp only: add_ac)
    also have "lbasis (insert a R) a + (\<Sum>i\<in>R. lbasis (insert a R) i) = (\<Sum>i\<in>insert a R. lbasis (insert a R) i)"
      using finR aR by simp
    also have "lbasis (insert b R) b + (\<Sum>i\<in>R. lbasis (insert b R) i) = (\<Sum>i\<in>insert b R. lbasis (insert b R) i)"
      using finR bR by simp
    finally show ?thesis
      by (simp only: UA UB albe mult_1_right)
  qed
qed

lemma lbasis_monomial:
  "finite S \<Longrightarrow> k < card S \<Longrightarrow> (\<Sum>i\<in>S. i ^ k * lbasis S i) = 0 ^ k"
proof (induction S arbitrary: k rule: finite_induct)
  case empty
  then show ?case by simp
next
  case (insert a R)
  note finR = insert.hyps(1) and aR = insert.hyps(2)
  let ?S = "insert a R"
  have unity: "(\<Sum>i\<in>?S. lbasis ?S i) = 1"
    using finR by (intro lbasis_unity) simp_all
  show ?case
  proof (cases k)
    case 0
    then show ?thesis using unity by simp
  next
    case (Suc n)
    have kR: "k \<le> card R" using insert.prems finR aR by simp
    define h where "h i = (\<Sum>p<Suc n. i ^ p * a ^ (n - p))" for i :: 'a
    have split: "i ^ k = a ^ k + (i - a) * h i" for i
    proof -
      have "i ^ Suc n - a ^ Suc n = (i - a) * h i"
        unfolding h_def by (rule diff_power_eq_sum)
      then have "i ^ Suc n = (i - a) * h i + a ^ Suc n"
        by (simp only: diff_eq_eq)
      then show ?thesis unfolding Suc by (simp only: add.commute)
    qed
    have tm: "(i - a) * h i * lbasis ?S i = - a * (h i * lbasis R i)" if "i \<in> R" for i
    proof -
      have nz: "a - i \<noteq> 0" using that aR by auto
      have "i - a = - (a - i)" by simp
      then have "(i - a) * (a / (a - i)) = - ((a - i) * (a / (a - i)))"
        by (simp only: mult_minus_left)
      also have "\<dots> = - a" using nz by simp
      finally have e: "(i - a) * (a / (a - i)) = - a" .
      have "(i - a) * h i * lbasis ?S i = (i - a) * (a / (a - i)) * (h i * lbasis R i)"
        unfolding lbasis_insert_other [OF finR aR that] by (simp only: mult_ac)
      then show ?thesis by (simp only: e)
    qed
    have hsum: "(\<Sum>i\<in>R. h i * lbasis R i) = a ^ n"
    proof -
      have "(\<Sum>i\<in>R. h i * lbasis R i) = (\<Sum>i\<in>R. \<Sum>p<Suc n. a ^ (n - p) * (i ^ p * lbasis R i))"
        unfolding h_def sum_distrib_right by (intro sum.cong refl) (simp only: mult_ac)
      also have "\<dots> = (\<Sum>p<Suc n. \<Sum>i\<in>R. a ^ (n - p) * (i ^ p * lbasis R i))"
        by (rule sum.swap)
      also have "\<dots> = (\<Sum>p<Suc n. a ^ (n - p) * (\<Sum>i\<in>R. i ^ p * lbasis R i))"
        by (simp only: sum_distrib_left)
      also have "\<dots> = (\<Sum>p<Suc n. a ^ (n - p) * 0 ^ p)"
      proof (intro sum.cong refl)
        fix p assume "p \<in> {..<Suc n}"
        then have "p < card R" using kR Suc by simp
        then show "a ^ (n - p) * (\<Sum>i\<in>R. i ^ p * lbasis R i) = a ^ (n - p) * 0 ^ p"
          by (simp only: insert.IH)
      qed
      also have "\<dots> = a ^ n"
        by (simp add: sum.lessThan_Suc_shift del: sum.lessThan_Suc)
      finally show ?thesis .
    qed
    have "(\<Sum>i\<in>?S. i ^ k * lbasis ?S i) =
        (\<Sum>i\<in>?S. a ^ k * lbasis ?S i + (i - a) * h i * lbasis ?S i)"
    proof (intro sum.cong refl)
      fix i
      show "i ^ k * lbasis ?S i = a ^ k * lbasis ?S i + (i - a) * h i * lbasis ?S i"
        by (subst split [of i]) (rule distrib_right)
    qed
    also have "\<dots> = a ^ k * (\<Sum>i\<in>?S. lbasis ?S i) + (\<Sum>i\<in>?S. (i - a) * h i * lbasis ?S i)"
      by (simp only: sum.distrib sum_distrib_left)
    also have "(\<Sum>i\<in>?S. (i - a) * h i * lbasis ?S i) = (\<Sum>i\<in>R. (i - a) * h i * lbasis ?S i)"
      using finR aR by simp
    also have "\<dots> = (\<Sum>i\<in>R. - a * (h i * lbasis R i))"
      by (intro sum.cong refl) (rule tm)
    also have "\<dots> = - a * (\<Sum>i\<in>R. h i * lbasis R i)"
      by (simp only: sum_distrib_left)
    finally show ?thesis
      by (simp add: unity hsum Suc)
  qed
qed

lemma peval_sum: "peval cs x = (\<Sum>k<length cs. cs ! k * x ^ k)"
proof (induction cs)
  case Nil
  then show ?case by simp
next
  case (Cons c cs)
  have "(\<Sum>k<length (c # cs). (c # cs) ! k * x ^ k) =
      c + (\<Sum>k<length cs. cs ! k * x ^ Suc k)"
    by (simp add: sum.lessThan_Suc_shift del: sum.lessThan_Suc power_Suc)
  also have "(\<Sum>k<length cs. cs ! k * x ^ Suc k) = x * (\<Sum>k<length cs. cs ! k * x ^ k)"
    unfolding sum_distrib_left by (intro sum.cong refl) simp
  finally show ?case by (simp add: Cons.IH)
qed

lemma lagDen_nonzero: "finite S \<Longrightarrow> lagDen S i \<noteq> 0"
  by (simp add: lagDen_def)

lemma lbasis_of_int:
  assumes "finite S"
  shows "lbasis (of_int ` S) (of_int i) = (of_int (lagNum S i) / of_int (lagDen S i) :: rat)"
proof -
  have img: "(of_int ` S :: rat set) - {of_int i} = of_int ` (S - {i})"
    by auto
  have "lbasis (of_int ` S) (of_int i :: rat) = (\<Prod>j\<in>S - {i}. of_int j / (of_int j - of_int i))"
    unfolding lbasis_def img by (subst prod.reindex) (simp_all add: inj_on_def)
  also have "\<dots> = (\<Prod>j\<in>S - {i}. of_int (- j) / of_int (i - j))"
  proof (intro prod.cong refl)
    fix j
    have "(of_int i :: rat) - of_int j = - (of_int j - of_int i)" by simp
    then have "(- of_int j :: rat) / (of_int i - of_int j) = - (of_int j / - (of_int j - of_int i))"
      by (simp only: minus_divide_left)
    also have "\<dots> = of_int j / (of_int j - of_int i)"
      by (simp only: divide_minus_right minus_minus)
    finally show "(of_int j :: rat) / (of_int j - of_int i) = of_int (- j) / of_int (i - j)" by simp
  qed
  also have "\<dots> = (\<Prod>j\<in>S - {i}. of_int (- j)) / (\<Prod>j\<in>S - {i}. of_int (i - j))"
    by (rule prod_dividef)
  finally show ?thesis
    by (simp only: lagNum_def lagDen_def of_int_prod)
qed

lemma lagrange_rat:
  assumes "finite S" "length cs \<le> card S"
  shows "(\<Sum>i\<in>S. of_int (peval cs i) * lbasis (of_int ` S) (of_int i)) = (of_int (peval cs 0) :: rat)"
proof -
  let ?S = "of_int ` S :: rat set"
  have inj: "inj_on (of_int :: int \<Rightarrow> rat) S" by (simp add: inj_on_def)
  have card: "card ?S = card S" by (rule card_image [OF inj])
  have mono: "(\<Sum>i\<in>S. of_int i ^ k * lbasis ?S (of_int i)) = (0::rat) ^ k" if "k < length cs" for k
  proof -
    have "k < card ?S" using that assms(2) card by simp
    from lbasis_monomial [OF _ this] assms(1)
    have "(\<Sum>i\<in>?S. i ^ k * lbasis ?S i) = 0 ^ k" by simp
    then show ?thesis by (simp only: sum.reindex [OF inj] o_def)
  qed
  have "(\<Sum>i\<in>S. of_int (peval cs i) * lbasis ?S (of_int i)) =
      (\<Sum>i\<in>S. \<Sum>k<length cs. of_int (cs ! k) * (of_int i ^ k * lbasis ?S (of_int i)))"
    by (intro sum.cong refl) (simp add: peval_sum sum_distrib_right mult.assoc)
  also have "\<dots> = (\<Sum>k<length cs. \<Sum>i\<in>S. of_int (cs ! k) * (of_int i ^ k * lbasis ?S (of_int i)))"
    by (rule sum.swap)
  also have "\<dots> = (\<Sum>k<length cs. of_int (cs ! k) * (\<Sum>i\<in>S. of_int i ^ k * lbasis ?S (of_int i)))"
    by (simp only: sum_distrib_left)
  also have "\<dots> = (\<Sum>k<length cs. of_int (cs ! k) * 0 ^ k)"
    by (intro sum.cong refl) (simp add: mono)
  also have "\<dots> = of_int (peval cs 0)"
    by (simp add: peval_sum)
  finally show ?thesis .
qed

lemma lagrange_int_identity:
  assumes "finite S" "length cs \<le> card S"
  shows "(\<Sum>i\<in>S. peval cs i * lagNum S i * (\<Prod>k\<in>S - {i}. lagDen S k)) =
         peval cs 0 * (\<Prod>k\<in>S. lagDen S k)"
proof -
  let ?P = "\<Prod>k\<in>S. lagDen S k"
  have tm: "(of_int (peval cs i * lagNum S i * (\<Prod>k\<in>S - {i}. lagDen S k)) :: rat) =
      of_int (peval cs i) * lbasis (of_int ` S) (of_int i) * of_int ?P" if "i \<in> S" for i
  proof -
    have P: "?P = lagDen S i * (\<Prod>k\<in>S - {i}. lagDen S k)"
      using assms(1) that by (rule prod.remove)
    have nz: "(of_int (lagDen S i) :: rat) \<noteq> 0"
      using lagDen_nonzero [OF assms(1)] by simp
    show ?thesis
      unfolding lbasis_of_int [OF assms(1)] by (subst P) (simp add: lagDen_nonzero [OF assms(1)])
  qed
  have "(of_int (\<Sum>i\<in>S. peval cs i * lagNum S i * (\<Prod>k\<in>S - {i}. lagDen S k)) :: rat) =
      (\<Sum>i\<in>S. of_int (peval cs i) * lbasis (of_int ` S) (of_int i) * of_int ?P)"
    unfolding of_int_sum by (intro sum.cong refl) (rule tm)
  also have "\<dots> = (\<Sum>i\<in>S. of_int (peval cs i) * lbasis (of_int ` S) (of_int i)) * of_int ?P"
    by (simp only: sum_distrib_right)
  also have "\<dots> = of_int (peval cs 0 * ?P)"
    by (simp only: lagrange_rat [OF assms] of_int_mult)
  finally show ?thesis by (simp only: of_int_eq_iff)
qed

lemma lagrange_mod:
  assumes "finite S" "length cs \<le> card S"
    and cop: "coprime (\<Prod>k\<in>S. lagDen S k) n"
    and lam: "\<forall>i\<in>S. n dvd (lam i * lagDen S i - lagNum S i)"
  shows "n dvd ((\<Sum>i\<in>S. lam i * peval cs i) - peval cs 0)"
proof -
  let ?P = "\<Prod>k\<in>S. lagDen S k"
  let ?E = "\<lambda>i. \<Prod>k\<in>S - {i}. lagDen S k"
  have P: "?P = lagDen S i * ?E i" if "i \<in> S" for i
    using assms(1) that by (rule prod.remove)
  have "((\<Sum>i\<in>S. lam i * peval cs i) - peval cs 0) * ?P =
      (\<Sum>i\<in>S. lam i * peval cs i * ?P) - (\<Sum>i\<in>S. peval cs i * lagNum S i * ?E i)"
    by (simp only: left_diff_distrib sum_distrib_right lagrange_int_identity [OF assms(1,2)])
  also have "\<dots> = (\<Sum>i\<in>S. lam i * peval cs i * ?P - peval cs i * lagNum S i * ?E i)"
    by (simp only: sum_subtractf)
  also have "\<dots> = (\<Sum>i\<in>S. (lam i * lagDen S i - lagNum S i) * (peval cs i * ?E i))"
  proof (intro sum.cong refl)
    fix i assume "i \<in> S"
    show "lam i * peval cs i * ?P - peval cs i * lagNum S i * ?E i =
        (lam i * lagDen S i - lagNum S i) * (peval cs i * ?E i)"
      by (subst P [OF \<open>i \<in> S\<close>]) (simp add: algebra_simps)
  qed
  finally have eq: "((\<Sum>i\<in>S. lam i * peval cs i) - peval cs 0) * ?P =
      (\<Sum>i\<in>S. (lam i * lagDen S i - lagNum S i) * (peval cs i * ?E i))" .
  have "n dvd (\<Sum>i\<in>S. (lam i * lagDen S i - lagNum S i) * (peval cs i * ?E i))"
    using lam by (intro dvd_sum) simp
  then have "n dvd ((\<Sum>i\<in>S. lam i * peval cs i) - peval cs 0) * ?P"
    by (simp only: eq)
  moreover have "coprime n ?P" using cop by (simp add: coprime_commute)
  ultimately show ?thesis
    by (simp add: coprime_dvd_mult_left_iff)
qed

section \<open>Facts about \<open>computeLagrangeCoefficients\<close>\<close>

lemma int64_id: "- (2 ^ 63) \<le> x \<Longrightarrow> x < 2 ^ 63 \<Longrightarrow> int64 x = x"
  by (simp add: int64_def)

lemma int64_range: "- (2 ^ 63) \<le> int64 x \<and> int64 x < 2 ^ 63"
proof -
  have "0 \<le> (x + 2 ^ 63) mod 2 ^ 64" "(x + 2 ^ 63) mod 2 ^ 64 < (2 ^ 64 :: int)"
    by simp_all
  then show ?thesis unfolding int64_def by simp
qed

lemma bigMod_pos: "0 < n \<Longrightarrow> bigMod x n = x mod n"
  by (simp add: bigMod_def)

lemma is_prime_coprime:
  assumes "is_prime p" "\<not> p dvd a"
  shows "coprime a p"
proof -
  have p: "1 < p" and nd: "\<forall>d\<in>{2..<p}. \<not> d dvd p"
    using assms(1) by (simp_all add: is_prime_def)
  define g where "g = gcd a p"
  have g0: "0 \<le> g" by (simp add: g_def)
  have gp: "g dvd p" and ga: "g dvd a" by (simp_all add: g_def)
  have "g \<noteq> 0" using p by (auto simp: g_def)
  have "g \<le> p" using gp p by (intro zdvd_imp_le) simp_all
  moreover have "g \<noteq> p" using ga assms(2) by auto
  ultimately have "g < p" by simp
  have "g < 2"
  proof (rule ccontr)
    assume "\<not> g < 2"
    then have "g \<in> {2..<p}" using \<open>g < p\<close> by simp
    with nd gp show False by blast
  qed
  then have "g = 1" using g0 \<open>g \<noteq> 0\<close> by simp
  then show ?thesis by (simp add: g_def coprime_iff_gcd_eq_1)
qed

lemma small_not_dvd:
  fixes n d :: int
  assumes "d \<noteq> 0" "\<bar>d\<bar> < n"
  shows "\<not> n dvd d"
proof
  assume "n dvd d"
  then have "n dvd \<bar>d\<bar>" by simp
  moreover have "0 < \<bar>d\<bar>" using assms(1) by simp
  ultimately have "n \<le> \<bar>d\<bar>" by (rule zdvd_imp_le)
  with assms(2) show False by simp
qed

lemma ModInverse_Some:
  assumes "1 < n" "coprime g n"
  shows "\<exists>d. ModInverse g n = Some d \<and> 0 \<le> d \<and> d < n \<and> (g * d) mod n = 1"
proof -
  have abs: "\<bar>n\<bar> = n" using assms(1) by simp
  have n0: "n \<noteq> 0" using assms(1) by simp
  define u where "u = fst (bezw (nat (g mod n)) (nat n))"
  define v where "v = snd (bezw (nat (g mod n)) (nat n))"
  have gm: "0 \<le> g mod n" using assms(1) by simp
  have "coprime (g mod n) n" using assms(2) n0 by (simp add: coprime_mod_left_iff)
  then have "coprime (int (nat (g mod n))) (int (nat n))"
    using gm assms(1) by simp
  then have "coprime (nat (g mod n)) (nat n)"
    by (simp only: coprime_int_iff)
  then have "gcd (nat (g mod n)) (nat n) = 1"
    by (simp add: coprime_iff_gcd_eq_1)
  then have "1 = u * (g mod n) + v * n"
    using bezw_aux [of "nat (g mod n)" "nat n"] gm assms(1) by (simp add: u_def v_def)
  then have "(u * (g mod n) + v * n) mod n = 1 mod n" by simp
  then have "(u * (g mod n)) mod n = 1" using assms(1) by simp
  then have "(g * u) mod n = 1"
    by (metis mod_mult_right_eq mult.commute)
  then have "(g * (u mod n)) mod n = 1"
    by (simp add: mod_mult_right_eq)
  moreover have "ModInverse g n = Some (u mod n)"
    using assms(2) by (simp add: ModInverse_def u_def coprime_iff_gcd_eq_1 abs)
  moreover have "0 \<le> u mod n" "u mod n < n" using assms(1) by simp_all
  ultimately show ?thesis by blast
qed

lemma ModInverse_None_iff: "ModInverse g n = None \<longleftrightarrow> \<not> coprime g n"
  by (simp add: ModInverse_def coprime_iff_gcd_eq_1)

lemma lagrangeInner_cong:
  assumes "1 < n"
  shows "fst (lagrangeInner n i js (a, b)) mod n =
           (a * prod_list (map (\<lambda>j. int64 (- j)) (filter (\<lambda>j. i \<noteq> j) js))) mod n \<and>
         snd (lagrangeInner n i js (a, b)) mod n =
           (b * prod_list (map (\<lambda>j. int64 (i - j)) (filter (\<lambda>j. i \<noteq> j) js))) mod n"
proof (induction js arbitrary: a b)
  case Nil
  then show ?case by simp
next
  case (Cons j js)
  have n: "0 < n" using assms by simp
  show ?case
  proof (cases "i = j")
    case True
    then show ?thesis using Cons.IH [of a b] by simp
  next
    case False
    have d: "(if int64 (i - j) < 0 then int64 (i - j) + n else int64 (i - j)) mod n = int64 (i - j) mod n"
      by simp
    have step: "lagrangeInner n i (j # js) (a, b) =
        lagrangeInner n i js ((a * (int64 (- j) mod n)) mod n, (b * (int64 (i - j) mod n)) mod n)"
      using False by (simp add: d Let_def bigMod_pos [OF n])
    have 1: "((a * (x mod n)) mod n * P) mod n = (a * (x * P)) mod n" for a x P
      by (metis mod_mult_left_eq mod_mult_right_eq mult.assoc)
    show ?thesis
      unfolding step
      using Cons.IH [of "(a * (int64 (- j) mod n)) mod n" "(b * (int64 (i - j) mod n)) mod n"] False
      by (simp add: 1)
  qed
qed

lemma lagrangeInner_range:
  assumes "1 < n"
  shows "0 \<le> a \<and> a < n \<and> 0 \<le> b \<and> b < n \<Longrightarrow>
    0 \<le> fst (lagrangeInner n i js (a, b)) \<and> fst (lagrangeInner n i js (a, b)) < n \<and>
    0 \<le> snd (lagrangeInner n i js (a, b)) \<and> snd (lagrangeInner n i js (a, b)) < n"
proof (induction js arbitrary: a b)
  case Nil
  then show ?case by simp
next
  case (Cons j js)
  have n: "0 < n" using assms by simp
  show ?case
  proof (cases "i = j")
    case True
    then show ?thesis using Cons.IH [OF Cons.prems] by simp
  next
    case False
    then show ?thesis
      using n by (simp add: Let_def bigMod_pos [OF n] Cons.IH)
  qed
qed

lemma coprime_prod_list_iff:
  fixes n :: int
  shows "coprime (prod_list xs) n \<longleftrightarrow> (\<forall>x\<in>set xs. coprime x n)"
  by (induction xs) (simp_all add: coprime_mult_left_iff)

lemma lagrangeCoeff_None_iff:
  assumes "1 < n"
  shows "lagrangeCoeff n js i = None \<longleftrightarrow> (\<exists>j\<in>set js. i \<noteq> j \<and> \<not> coprime (int64 (i - j)) n)"
proof -
  have n0: "n \<noteq> 0" using assms by simp
  obtain num den where nd: "lagrangeInner n i js (1, 1) = (num, den)"
    by (cases "lagrangeInner n i js (1, 1)")
  have "den mod n = prod_list (map (\<lambda>j. int64 (i - j)) (filter (\<lambda>j. i \<noteq> j) js)) mod n"
    using lagrangeInner_cong [OF assms, of i js 1 1] by (simp add: nd)
  then have "coprime (den mod n) n \<longleftrightarrow>
      coprime (prod_list (map (\<lambda>j. int64 (i - j)) (filter (\<lambda>j. i \<noteq> j) js)) mod n) n"
    by simp
  then have "coprime den n \<longleftrightarrow> coprime (prod_list (map (\<lambda>j. int64 (i - j)) (filter (\<lambda>j. i \<noteq> j) js))) n"
    using n0 by (simp add: coprime_mod_left_iff)
  also have "\<dots> \<longleftrightarrow> (\<forall>j\<in>set js. i \<noteq> j \<longrightarrow> coprime (int64 (i - j)) n)"
    by (auto simp: coprime_prod_list_iff)
  finally show ?thesis
    by (auto simp: lagrangeCoeff_def nd ModInverse_None_iff)
qed

lemma lagrangeOuter_Returned:
  assumes "\<forall>i\<in>set rest. lagrangeCoeff n participants i \<noteq> None"
  shows "lagrangeOuter n participants rest coeffs =
         Returned (\<lambda>k. if k \<in> set rest then lagrangeCoeff n participants k else coeffs k)"
  using assms
proof (induction rest arbitrary: coeffs)
  case Nil
  then show ?case by simp
next
  case (Cons i rest)
  obtain num den where nd: "lagrangeInner n i participants (1, 1) = (num, den)"
    by (cases "lagrangeInner n i participants (1, 1)")
  from Cons.prems obtain lam where lam: "lagrangeCoeff n participants i = Some lam" by auto
  then obtain d where d: "ModInverse den n = Some d" "lam = bigMod (num * d) n"
    by (auto simp: lagrangeCoeff_def nd)
  have "lagrangeOuter n participants (i # rest) coeffs =
      lagrangeOuter n participants rest (coeffs(i \<mapsto> lam))"
    by (simp add: nd d)
  also have "\<dots> = Returned (\<lambda>k. if k \<in> set rest then lagrangeCoeff n participants k else (coeffs(i \<mapsto> lam)) k)"
    using Cons.prems by (intro Cons.IH) simp
  also have "(\<lambda>k. if k \<in> set rest then lagrangeCoeff n participants k else (coeffs(i \<mapsto> lam)) k) =
      (\<lambda>k. if k \<in> set (i # rest) then lagrangeCoeff n participants k else coeffs k)"
    by (auto simp: lam fun_eq_iff)
  finally show ?case .
qed


lemma lagrangeOuter_not_Panic: "lagrangeOuter n participants rest coeffs \<noteq> Panic"
proof (induction rest arbitrary: coeffs)
  case Nil
  then show ?case by simp
next
  case (Cons i rest)
  obtain num den where nd: "lagrangeInner n i participants (1, 1) = (num, den)"
    by (cases "lagrangeInner n i participants (1, 1)")
  show ?case
    by (cases "ModInverse den n") (simp_all add: nd Cons.IH)
qed


lemma computeLagrangeCoefficients_Returned:
  assumes "1 < n" "\<forall>i\<in>set ids. \<forall>j\<in>set ids. i \<noteq> j \<longrightarrow> coprime (int64 (i - j)) n"
  shows "computeLagrangeCoefficients n ids =
         Returned (\<lambda>k. if k \<in> set ids then lagrangeCoeff n ids k else None)"
proof -
  have "\<forall>i\<in>set ids. lagrangeCoeff n ids i \<noteq> None"
    using assms(2) by (auto simp: lagrangeCoeff_None_iff [OF assms(1)])
  from lagrangeOuter_Returned [OF this, of Map.empty] assms(1)
  show ?thesis by (simp add: computeLagrangeCoefficients_def)
qed

lemma computeLagrangeCoefficients_not_Panic:
  "n \<noteq> 0 \<Longrightarrow> computeLagrangeCoefficients n ids \<noteq> Panic"
  by (simp add: computeLagrangeCoefficients_def lagrangeOuter_not_Panic)

lemma filter_prod_set:
  assumes "distinct js"
  shows "prod_list (map f (filter (\<lambda>j. i \<noteq> j) js)) = prod f (set js - {i})"
proof -
  have "distinct (filter (\<lambda>j. i \<noteq> j) js)" using assms by simp
  moreover have "set (filter (\<lambda>j. i \<noteq> j) js) = set js - {i}" by auto
  ultimately show ?thesis
    by (metis prod.distinct_set_conv_list)
qed

lemma lagrangeInner_set:
  assumes "1 < n" "distinct js" "\<forall>j\<in>set js. 0 < j \<and> j < 2 ^ 63" "i \<in> set js"
  shows "fst (lagrangeInner n i js (1, 1)) mod n = lagNum (set js) i mod n"
    and "snd (lagrangeInner n i js (1, 1)) mod n = lagDen (set js) i mod n"
proof -
  have i: "0 < i" "i < 2 ^ 63" using assms(3,4) by auto
  have a: "map (\<lambda>j. int64 (- j)) (filter (\<lambda>j. i \<noteq> j) js) = map uminus (filter (\<lambda>j. i \<noteq> j) js)"
    using assms(3) by (intro map_cong refl int64_id) auto
  have b: "map (\<lambda>j. int64 (i - j)) (filter (\<lambda>j. i \<noteq> j) js) = map (\<lambda>j. i - j) (filter (\<lambda>j. i \<noteq> j) js)"
  proof (intro map_cong refl int64_id)
    fix j assume "j \<in> set (filter (\<lambda>j. i \<noteq> j) js)"
    then have "0 < j" "j < 2 ^ 63" using assms(3) by auto
    then show "- (2 ^ 63) \<le> i - j" "i - j < 2 ^ 63" using i by linarith+
  qed
  from lagrangeInner_cong [OF assms(1), of i js 1 1]
  show "fst (lagrangeInner n i js (1, 1)) mod n = lagNum (set js) i mod n"
    and "snd (lagrangeInner n i js (1, 1)) mod n = lagDen (set js) i mod n"
    by (simp_all add: a b filter_prod_set [OF assms(2)] lagNum_def lagDen_def)
qed

lemma int64_diff_id:
  assumes "0 < i" "i < 2 ^ 63" "0 < j" "j < 2 ^ 63"
  shows "int64 (i - j) = i - j"
  using assms by (intro int64_id) linarith+

lemma lagDen_coprime:
  assumes "\<forall>i\<in>S. \<forall>j\<in>S. i \<noteq> j \<longrightarrow> coprime (i - j) n" "i \<in> S"
  shows "coprime (lagDen S i) n"
  unfolding lagDen_def
proof (rule prod_coprime_left)
  fix j assume "j \<in> S - {i}"
  then show "coprime (i - j) n" using assms by auto
qed

lemma lagrangeCoeff_Some:
  assumes "1 < n" "distinct js" "\<forall>j\<in>set js. 0 < j \<and> j < 2 ^ 63"
    and "\<forall>i\<in>set js. \<forall>j\<in>set js. i \<noteq> j \<longrightarrow> coprime (i - j) n"
    and "i \<in> set js"
  shows "\<exists>lam inv. lagrangeCoeff n js i = Some lam \<and> 0 \<le> lam \<and> lam < n \<and>
           0 \<le> inv \<and> inv < n \<and> (lagDen (set js) i * inv) mod n = 1 \<and>
           lam = (lagNum (set js) i * inv) mod n \<and>
           n dvd (lam * lagDen (set js) i - lagNum (set js) i)"
proof -
  have n0: "n \<noteq> 0" and npos: "0 < n" using assms(1) by simp_all
  obtain num den where nd: "lagrangeInner n i js (1, 1) = (num, den)"
    by (cases "lagrangeInner n i js (1, 1)")
  have num: "num mod n = lagNum (set js) i mod n" and den: "den mod n = lagDen (set js) i mod n"
    using lagrangeInner_set [OF assms(1,2,3,5)] by (simp_all add: nd)
  have "coprime (lagDen (set js) i) n"
    by (rule lagDen_coprime [OF assms(4,5)])
  then have "coprime (lagDen (set js) i mod n) n" using n0 by (simp add: coprime_mod_left_iff)
  then have "coprime (den mod n) n" by (simp only: den)
  then have cop: "coprime den n" using n0 by (simp add: coprime_mod_left_iff)
  from ModInverse_Some [OF assms(1) cop] obtain d where
    d: "ModInverse den n = Some d" "0 \<le> d" "d < n" "(den * d) mod n = 1" by blast
  define lam where "lam = (num * d) mod n"
  have co: "lagrangeCoeff n js i = Some lam"
    by (simp add: lagrangeCoeff_def nd d(1) lam_def bigMod_pos [OF npos])
  have inv: "(lagDen (set js) i * d) mod n = 1"
    using d(4) den by (metis mod_mult_left_eq)
  have form: "lam = (lagNum (set js) i * d) mod n"
    unfolding lam_def using num by (metis mod_mult_left_eq)
  have "(lam * lagDen (set js) i) mod n = ((lagNum (set js) i * d) * lagDen (set js) i) mod n"
    unfolding form by (simp add: mod_mult_left_eq)
  also have "\<dots> = (lagNum (set js) i * ((lagDen (set js) i * d) mod n)) mod n"
    by (metis mod_mult_right_eq mult.assoc mult.commute)
  also have "\<dots> = lagNum (set js) i mod n"
    by (simp add: inv)
  finally have "n dvd (lam * lagDen (set js) i - lagNum (set js) i)"
    by (simp add: mod_eq_dvd_iff)
  moreover have "0 \<le> lam" "lam < n" using assms(1) by (simp_all add: lam_def)
  ultimately show ?thesis using co d(2,3) inv form by blast
qed

section \<open>Facts about \<open>CombinePartialDecryptions\<close>\<close>



lemma Combine_Returned:
  assumes "computeLagrangeCoefficients (Order C) ids = Returned coeffs"
    and "weightedSum C pds coeffs ids (G1_Zero C) = Some s"
  shows "CombinePartialDecryptions C b sched c2 pds ids =
         Returned (recoverScalar C b sched (G1_Add C c2 (G1_Neg C s)))"
  using assms by (simp add: CombinePartialDecryptions_def Let_def)



lemma prime_order_differences:
  assumes "is_prime n" "2 ^ 63 < n"
    and "- (2 ^ 63) \<le> i" "i < 2 ^ 63" "- (2 ^ 63) \<le> j" "j < 2 ^ 63" "i \<noteq> j"
  shows "coprime (int64 (i - j)) n"
proof (rule is_prime_coprime [OF assms(1)])
  have r: "- (2 ^ 63) \<le> int64 (i - j)" "int64 (i - j) < 2 ^ 63"
    using int64_range [of "i - j"] by simp_all
  have "int64 (i - j) \<noteq> 0"
  proof
    assume "int64 (i - j) = 0"
    then have "(i - j + 2 ^ 63) mod 2 ^ 64 = 2 ^ 63 mod 2 ^ 64" by (simp add: int64_def)
    then have "(2 ^ 64 :: int) dvd (i - j + 2 ^ 63) - 2 ^ 63" by (simp only: mod_eq_dvd_iff)
    then have "(2 ^ 64 :: int) dvd i - j" by simp
    moreover have "i - j \<noteq> 0" "\<bar>i - j\<bar> < 2 ^ 64" using assms(3-7) by simp_all
    ultimately show False using small_not_dvd by blast
  qed
  moreover have "\<bar>int64 (i - j)\<bar> < n" using r assms(2) by simp
  ultimately show "\<not> n dvd int64 (i - j)" by (rule small_not_dvd)
qed




lemma W64_roundtrip:
  assumes "schedule_ok sched" "x \<le> discreteLogMaxMessage"
  shows "recoverScalar W64 b sched (word_of_int (int x)) = Inr (int x)"
proof -
  have "bruteForce W64 sched (G1_ScalarBaseMult W64 (int x)) = Inr (int x)"
    by (rule bruteForce_roundtrip [OF W64_contract assms(1) gc_order_large [OF W64_contract] assms(2)])
  moreover have "babyStepGiantStep W64 (G1_ScalarBaseMult W64 (int x)) = Inr (int x)"
    by (rule babyStepGiantStep_roundtrip [OF W64_contract gc_order_large [OF W64_contract] assms(2)])
  ultimately show ?thesis by (simp add: recoverScalar_def)
qed



section \<open>Properties of the Lagrange step inside \<open>CombinePartialDecryptions\<close>\<close>






section \<open>The Lagrange coefficients\<close>

lemma peval_monomial: "peval (replicate k 0 @ [1]) x = x ^ k"
  by (induction k) simp_all

lemma prime_differences:
  assumes "is_prime n" "0 < i" "i < n" "0 < j" "j < n" "i \<noteq> j"
  shows "coprime (i - j) n"
proof (rule is_prime_coprime [OF assms(1)])
  have "i - j \<noteq> 0" "\<bar>i - j\<bar> < n" using assms(2-6) by simp_all
  then show "\<not> n dvd i - j" by (rule small_not_dvd)
qed

lemma coprime_int64_differences:
  assumes "\<forall>i\<in>set ids. 0 < i \<and> i < 2 ^ 63"
    and "\<forall>i\<in>set ids. \<forall>j\<in>set ids. i \<noteq> j \<longrightarrow> coprime (i - j) n"
  shows "\<forall>i\<in>set ids. \<forall>j\<in>set ids. i \<noteq> j \<longrightarrow> coprime (int64 (i - j)) n"
proof (intro ballI impI)
  fix i j assume ij: "i \<in> set ids" "j \<in> set ids" "i \<noteq> j"
  then have "int64 (i - j) = i - j"
    using assms(1) by (intro int64_diff_id) auto
  then show "coprime (int64 (i - j)) n" using assms(2) ij by simp
qed

lemma lagrange_coefficients_interpolate:
  assumes "1 < n" "distinct ids" "\<forall>i\<in>set ids. 0 < i \<and> i < 2 ^ 63"
    and "\<forall>i\<in>set ids. \<forall>j\<in>set ids. i \<noteq> j \<longrightarrow> coprime (i - j) n"
    and "length cs \<le> length ids"
  shows "n dvd ((\<Sum>i\<in>set ids. the (lagrangeCoeff n ids i) * peval cs i) - peval cs 0)"
proof (rule lagrange_mod)
  show "finite (set ids)" by simp
  show "length cs \<le> card (set ids)"
    using assms(2,5) by (simp add: distinct_card)
  show "coprime (\<Prod>k\<in>set ids. lagDen (set ids) k) n"
    by (rule prod_coprime_left) (rule lagDen_coprime [OF assms(4)])
  show "\<forall>i\<in>set ids. n dvd the (lagrangeCoeff n ids i) * lagDen (set ids) i - lagNum (set ids) i"
  proof
    fix i assume "i \<in> set ids"
    from lagrangeCoeff_Some [OF assms(1,2,3,4) this] obtain lam where
      "lagrangeCoeff n ids i = Some lam" "n dvd (lam * lagDen (set ids) i - lagNum (set ids) i)"
      by blast
    then show "n dvd the (lagrangeCoeff n ids i) * lagDen (set ids) i - lagNum (set ids) i"
      by simp
  qed
qed

text \<open>
  C3 (confirmed). For a list of pairwise distinct, positive participant ids (Go \<open>int\<close>s,
  so below \<open>2^63\<close>) \<open>computeLagrangeCoefficients\<close> returns a map with exactly one entry
  for each id \<open>i\<close>, the coefficient
  \<open>\<lambda>\<^sub>i = (\<Prod>\<^bsub>j \<noteq> i\<^esub> (-j)) \<cdot> (\<Prod>\<^bsub>j \<noteq> i\<^esub> (i - j))\<^sup>-\<^sup>1 mod N\<close>, where the inverse is the inverse modulo \<open>N\<close>;
  and the coefficients satisfy the interpolation identity
  \<open>\<Sum>\<^sub>i \<lambda>\<^sub>i \<cdot> i^k = [k = 0] (mod N)\<close> for every \<open>k\<close> below the number of ids, so for the ids
  \<open>1, 2, 3\<close> for \<open>k = 0\<close> and \<open>k = 1\<close> (and \<open>k = 2\<close>). \<open>N\<close> is the order, above 1; what the
  theorem needs of it is that the differences of different ids are invertible modulo
  \<open>N\<close>, which is so when \<open>N\<close> is a prime above the ids (\<open>prime_differences\<close>).
\<close>

theorem computeLagrangeCoefficients_formula:
  assumes "1 < n"
    and "distinct ids"
    and "\<forall>i\<in>set ids. 0 < i \<and> i < 2 ^ 63"
    and "\<forall>i\<in>set ids. \<forall>j\<in>set ids. i \<noteq> j \<longrightarrow> coprime (i - j) n"
  shows "\<exists>coeffs. computeLagrangeCoefficients n ids = Returned coeffs \<and>
           dom coeffs = set ids \<and>
           (\<forall>i\<in>set ids. \<exists>inv. 0 \<le> inv \<and> inv < n \<and>
              (lagDen (set ids) i * inv) mod n = 1 \<and>
              coeffs i = Some ((lagNum (set ids) i * inv) mod n)) \<and>
           (\<forall>k<length ids. (\<Sum>i\<in>set ids. the (coeffs i) * i ^ k) mod n = (0 ^ k) mod n)"
proof -
  define coeffs where "coeffs = (\<lambda>k. if k \<in> set ids then lagrangeCoeff n ids k else None)"
  have ret: "computeLagrangeCoefficients n ids = Returned coeffs"
    unfolding coeffs_def
    by (rule computeLagrangeCoefficients_Returned [OF assms(1) coprime_int64_differences [OF assms(3,4)]])
  have each: "\<exists>inv. 0 \<le> inv \<and> inv < n \<and> (lagDen (set ids) i * inv) mod n = 1 \<and>
      coeffs i = Some ((lagNum (set ids) i * inv) mod n)" if "i \<in> set ids" for i
    using lagrangeCoeff_Some [OF assms that] that by (auto simp: coeffs_def)
  have dom: "dom coeffs = set ids"
  proof
    show "dom coeffs \<subseteq> set ids" by (auto simp: coeffs_def split: if_splits)
    show "set ids \<subseteq> dom coeffs" using each by fastforce
  qed
  have ident: "(\<Sum>i\<in>set ids. the (coeffs i) * i ^ k) mod n = (0 ^ k) mod n" if "k < length ids" for k
  proof -
    have len: "length (replicate k (0 :: int) @ [1]) \<le> length ids" using that by simp
    from lagrange_coefficients_interpolate [OF assms len]
    have "n dvd ((\<Sum>i\<in>set ids. the (lagrangeCoeff n ids i) * i ^ k) - 0 ^ k)"
      by (simp only: peval_monomial)
    moreover have "(\<Sum>i\<in>set ids. the (coeffs i) * i ^ k) =
        (\<Sum>i\<in>set ids. the (lagrangeCoeff n ids i) * i ^ k)"
      by (intro sum.cong refl) (simp add: coeffs_def)
    ultimately show ?thesis by (simp only: mod_eq_dvd_iff)
  qed
  from ret dom each ident show ?thesis by blast
qed

lemma coeffs_13:
  "lagrangeCoeff 13 [1, 2, 3] 1 = Some 3"
  "lagrangeCoeff 13 [1, 2, 3] 2 = Some 10"
  "lagrangeCoeff 13 [1, 2, 3] 3 = Some 1"
  by code_simp+

lemma coeffs_13_map:
  "(\<lambda>k. if k \<in> set [1, 2, 3] then lagrangeCoeff 13 [1, 2, 3] k else None) =
   [1 \<mapsto> 3, 2 \<mapsto> 10, 3 \<mapsto> 1]"
  by (rule ext) (simp add: coeffs_13)

lemma prime_13: "is_prime 13"
  unfolding is_prime_def by code_simp

lemma differences_13:
  "\<forall>i\<in>set [1, 2, 3 :: int]. \<forall>j\<in>set [1, 2, 3]. i \<noteq> j \<longrightarrow> coprime (i - j) 13"
proof (intro ballI impI)
  fix i j :: int
  assume "i \<in> set [1, 2, 3]" "j \<in> set [1, 2, 3]" "i \<noteq> j"
  then show "coprime (i - j) 13"
    by (intro prime_differences [OF prime_13]) auto
qed

lemma identity_123:
  fixes n :: int
  assumes "\<forall>k<length [1, 2, 3 :: int]. (\<Sum>i\<in>set [1, 2, 3]. the (coeffs i) * i ^ k) mod n = (0 ^ k) mod n"
  shows "(the (coeffs 1) + the (coeffs 2) + the (coeffs 3)) mod n = 1 mod n"
    and "(the (coeffs 1) * 1 + the (coeffs 2) * 2 + the (coeffs 3) * 3) mod n = 0"
proof -
  have k0: "(\<Sum>i\<in>set [1, 2, 3]. the (coeffs i) * i ^ 0) mod n = (0 ^ 0) mod n"
    using assms by (elim allE [of _ 0]) simp
  have k1: "(\<Sum>i\<in>set [1, 2, 3]. the (coeffs i) * i ^ 1) mod n = (0 ^ 1) mod n"
    using assms by (elim allE [of _ 1]) simp
  show "(the (coeffs 1) + the (coeffs 2) + the (coeffs 3)) mod n = 1 mod n"
    using k0 by (simp add: add.assoc)
  show "(the (coeffs 1) * 1 + the (coeffs 2) * 2 + the (coeffs 3) * 3) mod n = 0"
    using k1 by (simp add: add.assoc)
qed

theorem computeLagrangeCoefficients_formula_witness:
  "is_prime 13 \<and> distinct [1, 2, 3 :: int] \<and>
   computeLagrangeCoefficients 13 [1, 2, 3] = Returned [1 \<mapsto> 3, 2 \<mapsto> 10, 3 \<mapsto> 1] \<and>
   (\<exists>coeffs. computeLagrangeCoefficients 13 [1, 2, 3] = Returned coeffs \<and>
      dom coeffs = {1, 2, 3} \<and>
      (the (coeffs 1) + the (coeffs 2) + the (coeffs 3)) mod 13 = 1 \<and>
      (the (coeffs 1) * 1 + the (coeffs 2) * 2 + the (coeffs 3) * 3) mod 13 = 0)"
proof -
  have n: "(1 :: int) < 13" by simp
  have d: "distinct [1, 2, 3 :: int]" by simp
  have r: "\<forall>i\<in>set [1, 2, 3 :: int]. 0 < i \<and> i < 2 ^ 63" by simp
  from computeLagrangeCoefficients_formula [OF n d r differences_13] obtain coeffs where
    co: "computeLagrangeCoefficients 13 [1, 2, 3] = Returned coeffs"
    and dm: "dom coeffs = set [1, 2, 3]"
    and idt: "\<forall>k<length [1, 2, 3 :: int]. (\<Sum>i\<in>set [1, 2, 3]. the (coeffs i) * i ^ k) mod 13 = (0 ^ k) mod 13"
    by (elim exE conjE)
  have s0: "(the (coeffs 1) + the (coeffs 2) + the (coeffs 3)) mod 13 = 1"
    using identity_123(1) [OF idt] by simp
  have s1: "(the (coeffs 1) * 1 + the (coeffs 2) * 2 + the (coeffs 3) * 3) mod 13 = 0"
    by (rule identity_123(2) [OF idt])
  have "computeLagrangeCoefficients 13 [1, 2, 3] =
      Returned (\<lambda>k. if k \<in> set [1, 2, 3] then lagrangeCoeff 13 [1, 2, 3] k else None)"
    by (rule computeLagrangeCoefficients_Returned [OF n coprime_int64_differences [OF r differences_13]])
  then have v: "computeLagrangeCoefficients 13 [1, 2, 3] = Returned [1 \<mapsto> 3, 2 \<mapsto> 10, 3 \<mapsto> 1]"
    by (simp only: coeffs_13_map)
  have dm': "dom coeffs = {1, 2, 3}" using dm by simp
  have ex: "\<exists>coeffs. computeLagrangeCoefficients 13 [1, 2, 3] = Returned coeffs \<and>
      dom coeffs = {1, 2, 3} \<and>
      (the (coeffs 1) + the (coeffs 2) + the (coeffs 3)) mod 13 = 1 \<and>
      (the (coeffs 1) * 1 + the (coeffs 2) * 2 + the (coeffs 3) * 3) mod 13 = 0"
    by (rule exI [of _ coeffs]) (intro conjI co dm' s0 s1)
  show ?thesis by (intro conjI prime_13 d v ex)
qed

section \<open>Threshold decryption\<close>

lemma bruteForce_schedule:
  assumes "group_contract C" "schedule_ok sched1" "schedule_ok sched2"
  shows "bruteForce C sched1 m = bruteForce C sched2 m"
proof (cases "bruteForce C sched1 m")
  case (Inl e)
  then have "bruteForce C sched2 m = Inl e"
    by (simp add: bruteForce_Inl_iff [OF assms(1,2)] bruteForce_Inl_iff [OF assms(1,3)])
  with Inl show ?thesis by simp
next
  case (Inr y)
  from bruteForce_Inr [OF assms(1,2) Inr]
  have y: "0 \<le> y" "y \<le> int discreteLogMaxMessage" "G1_ScalarBaseMult C y = m" by simp_all
  show ?thesis
  proof (cases "bruteForce C sched2 m")
    case (Inl e)
    then have "\<forall>x\<le>discreteLogMaxMessage. G1_ScalarBaseMult C (int x) \<noteq> m"
      by (simp add: bruteForce_Inl_iff [OF assms(1,3)])
    moreover have "nat y \<le> discreteLogMaxMessage" using y(1,2) by simp
    ultimately have "G1_ScalarBaseMult C (int (nat y)) \<noteq> m" by blast
    then show ?thesis using y(1,3) by simp
  next
    case (Inr y')
    from bruteForce_Inr [OF assms(1,3) Inr]
    have y': "0 \<le> y'" "y' \<le> int discreteLogMaxMessage" "G1_ScalarBaseMult C y' = m" by simp_all
    have "G1_ScalarBaseMult C (int (nat y)) = G1_ScalarBaseMult C (int (nat y'))"
      using y y' by simp
    then have "nat y = nat y'"
      using y y' gc_order_large [OF assms(1)]
      by (intro gc_base_eq_small [OF assms(1)]) simp_all
    then have "y = y'" using y(1) y'(1) by simp
    with Inr \<open>bruteForce C sched1 m = Inr y\<close> show ?thesis by simp
  qed
qed

lemma recoverScalar_schedule:
  assumes "group_contract C" "schedule_ok sched1" "schedule_ok sched2"
  shows "recoverScalar C b sched1 m = recoverScalar C b sched2 m"
  using bruteForce_schedule [OF assms] by (simp add: recoverScalar_def)

lemma weightedSum_shares:
  assumes "group_contract C"
    and "\<forall>i\<in>set ids. pds i = Some (G1_ScalarMult C c1 (sh i)) \<and> coeffs i = Some (lam i) \<and>
           0 \<le> sh i \<and> 0 \<le> lam i"
    and "0 \<le> a"
  shows "weightedSum C pds coeffs ids (G1_ScalarMult C c1 a) =
         Some (G1_ScalarMult C c1 (a + (\<Sum>i\<leftarrow>ids. lam i * sh i)))"
  using assms(2,3)
proof (induction ids arbitrary: a)
  case Nil
  then show ?case by simp
next
  case (Cons i ids)
  have i: "pds i = Some (G1_ScalarMult C c1 (sh i))" "coeffs i = Some (lam i)" "0 \<le> sh i" "0 \<le> lam i"
    using Cons.prems(1) by simp_all
  have nn: "0 \<le> lam i * sh i" using i(3,4) by simp
  have "G1_Add C (G1_ScalarMult C c1 a) (G1_ScalarMult C (G1_ScalarMult C c1 (sh i)) (lam i)) =
      G1_Add C (G1_ScalarMult C c1 a) (G1_ScalarMult C c1 (sh i * lam i))"
    by (simp only: gc_smul_smul [OF assms(1) i(3,4)])
  also have "\<dots> = G1_ScalarMult C c1 (a + lam i * sh i)"
    using gc_smul_add [OF assms(1) Cons.prems(2) nn, of c1] by (simp add: mult.commute)
  finally have step: "G1_Add C (G1_ScalarMult C c1 a) (G1_ScalarMult C (G1_ScalarMult C c1 (sh i)) (lam i)) =
      G1_ScalarMult C c1 (a + lam i * sh i)" .
  have "weightedSum C pds coeffs (i # ids) (G1_ScalarMult C c1 a) =
      weightedSum C pds coeffs ids (G1_ScalarMult C c1 (a + lam i * sh i))"
    by (simp add: i(1,2) step)
  also have "\<dots> = Some (G1_ScalarMult C c1 (a + lam i * sh i + (\<Sum>i\<leftarrow>ids. lam i * sh i)))"
    using Cons.prems nn by (intro Cons.IH) simp_all
  finally show ?case by (simp add: add.assoc)
qed

lemma sum_shares_mod:
  assumes "1 < n" "distinct ids" "\<forall>i\<in>set ids. 0 < i \<and> i < 2 ^ 63"
    and "\<forall>i\<in>set ids. \<forall>j\<in>set ids. i \<noteq> j \<longrightarrow> coprime (i - j) n"
    and "length cs \<le> length ids"
  shows "(\<Sum>i\<leftarrow>ids. the (lagrangeCoeff n ids i) * shamirShare n cs i) mod n = peval cs 0 mod n"
proof -
  have "(\<Sum>i\<leftarrow>ids. the (lagrangeCoeff n ids i) * shamirShare n cs i) =
      (\<Sum>i\<in>set ids. the (lagrangeCoeff n ids i) * (peval cs i mod n))"
    using assms(2) by (simp add: sum_list_distinct_conv_sum_set shamirShare_def)
  also have "\<dots> mod n = (\<Sum>i\<in>set ids. (the (lagrangeCoeff n ids i) * (peval cs i mod n)) mod n) mod n"
    by (rule mod_sum_eq [symmetric])
  also have "\<dots> = (\<Sum>i\<in>set ids. (the (lagrangeCoeff n ids i) * peval cs i) mod n) mod n"
    by (simp only: mod_mult_right_eq)
  also have "\<dots> = (\<Sum>i\<in>set ids. the (lagrangeCoeff n ids i) * peval cs i) mod n"
    by (rule mod_sum_eq)
  also have "\<dots> = peval cs 0 mod n"
    using lagrange_coefficients_interpolate [OF assms] by (simp only: mod_eq_dvd_iff)
  finally show ?thesis .
qed

lemma Combine_shares:
  assumes gc: "group_contract C"
    and "distinct ids"
    and "length cs \<le> length ids"
    and "\<forall>i\<in>set ids. 0 < i \<and> i < 2 ^ 63"
    and "\<forall>i\<in>set ids. \<forall>j\<in>set ids. i \<noteq> j \<longrightarrow> coprime (i - j) (Order C)"
    and "\<forall>i\<in>set ids. pds i =
           Some (ComputePartialDecryption C \<lparr>ID = i, PrivateShare = shamirShare (Order C) cs i\<rparr> c1)"
  shows "CombinePartialDecryptions C b sched c2 pds ids =
         Returned (recoverScalar C b sched
           (G1_Add C c2 (G1_Neg C (G1_ScalarMult C c1 (peval cs 0 mod Order C)))))"
proof -
  let ?n = "Order C"
  let ?coeffs = "\<lambda>k. if k \<in> set ids then lagrangeCoeff ?n ids k else None"
  let ?lam = "\<lambda>i. the (lagrangeCoeff ?n ids i)"
  let ?sh = "\<lambda>i. shamirShare ?n cs i"
  let ?k = "\<Sum>i\<leftarrow>ids. ?lam i * ?sh i"
  have n: "1 < ?n" by (rule gc_order [OF gc])
  have co: "computeLagrangeCoefficients ?n ids = Returned ?coeffs"
    by (rule computeLagrangeCoefficients_Returned [OF n coprime_int64_differences [OF assms(4,5)]])
  have each: "pds i = Some (G1_ScalarMult C c1 (?sh i)) \<and> ?coeffs i = Some (?lam i) \<and>
      0 \<le> ?sh i \<and> 0 \<le> ?lam i" if "i \<in> set ids" for i
  proof -
    from lagrangeCoeff_Some [OF n assms(2,4,5) that] obtain lam where
      "lagrangeCoeff ?n ids i = Some lam" "0 \<le> lam" by blast
    moreover have "0 \<le> ?sh i" using n by (simp add: shamirShare_def)
    ultimately show ?thesis
      using that assms(6) by (simp add: ComputePartialDecryption_def)
  qed
  have knn: "0 \<le> ?k"
    using each by (intro sum_list_nonneg) auto
  have z: "G1_Zero C = G1_ScalarMult C c1 0" by (simp add: gc_smul_0 [OF gc])
  have "weightedSum C pds ?coeffs ids (G1_ScalarMult C c1 0) = Some (G1_ScalarMult C c1 (0 + ?k))"
    by (rule weightedSum_shares [OF gc]) (use each in blast, simp)
  then have ws: "weightedSum C pds ?coeffs ids (G1_Zero C) = Some (G1_ScalarMult C c1 ?k)"
    by (simp add: z [symmetric])
  have "G1_ScalarMult C c1 ?k = G1_ScalarMult C c1 (?k mod ?n)"
    by (rule gc_smul_mod [OF gc knn, symmetric])
  also have "?k mod ?n = peval cs 0 mod ?n"
    by (rule sum_shares_mod [OF n assms(2,4,5,3)])
  finally have "G1_ScalarMult C c1 ?k = G1_ScalarMult C c1 (peval cs 0 mod ?n)" .
  with Combine_Returned [OF co ws] show ?thesis by simp
qed


text \<open>
  C1 (confirmed). Fixed are the ciphertext \<open>(c1, c2)\<close> and the dealer polynomial \<open>cs\<close> of a
  secret key, \<open>peval cs 0\<close>, with threshold \<open>length cs\<close>; the share of participant \<open>i\<close> is
  \<open>shamirShare (Order C) cs i\<close> and its partial decryption is what
  \<open>ComputePartialDecryption\<close> returns for that share and \<open>c1\<close>. For any two lists of
  pairwise distinct, positive ids (Go \<open>int\<close>s) with at least as many ids as the threshold,
  \<open>CombinePartialDecryptions\<close> returns the same result, under either strategy and
  whatever the order in which the workers of the brute force report: the result of the
  discrete-logarithm search for the point \<open>c2 - secret\<cdot>c1\<close>, which depends on the secret
  and the ciphertext only. The group meets the contract of the data model; what the
  theorem needs of its order is that the differences of different ids of a list are
  invertible modulo it, as they are for a prime order above the ids
  (\<open>prime_differences\<close>).
\<close>

theorem threshold_independence:
  assumes "group_contract C"
    and "schedule_ok sched1" and "schedule_ok sched2"
    and "distinct ids1" and "distinct ids2"
    and "length cs \<le> length ids1" and "length cs \<le> length ids2"
    and "\<forall>i\<in>set ids1. 0 < i \<and> i < 2 ^ 63"
    and "\<forall>i\<in>set ids2. 0 < i \<and> i < 2 ^ 63"
    and "\<forall>i\<in>set ids1. \<forall>j\<in>set ids1. i \<noteq> j \<longrightarrow> coprime (i - j) (Order C)"
    and "\<forall>i\<in>set ids2. \<forall>j\<in>set ids2. i \<noteq> j \<longrightarrow> coprime (i - j) (Order C)"
    and "\<forall>i\<in>set ids1. pds1 i =
           Some (ComputePartialDecryption C \<lparr>ID = i, PrivateShare = shamirShare (Order C) cs i\<rparr> c1)"
    and "\<forall>i\<in>set ids2. pds2 i =
           Some (ComputePartialDecryption C \<lparr>ID = i, PrivateShare = shamirShare (Order C) cs i\<rparr> c1)"
  shows "CombinePartialDecryptions C b sched1 c2 pds1 ids1 =
           CombinePartialDecryptions C b sched2 c2 pds2 ids2 \<and>
         CombinePartialDecryptions C b sched1 c2 pds1 ids1 =
           Returned (recoverScalar C b sched1
             (G1_Add C c2 (G1_Neg C (G1_ScalarMult C c1 (peval cs 0 mod Order C)))))"
proof -
  have 1: "CombinePartialDecryptions C b sched1 c2 pds1 ids1 =
      Returned (recoverScalar C b sched1
        (G1_Add C c2 (G1_Neg C (G1_ScalarMult C c1 (peval cs 0 mod Order C)))))"
    by (rule Combine_shares [OF assms(1,4,6,8,10,12)])
  have 2: "CombinePartialDecryptions C b sched2 c2 pds2 ids2 =
      Returned (recoverScalar C b sched2
        (G1_Add C c2 (G1_Neg C (G1_ScalarMult C c1 (peval cs 0 mod Order C)))))"
    by (rule Combine_shares [OF assms(1,5,7,9,11,13)])
  show ?thesis
    by (simp only: 1 2 recoverScalar_schedule [OF assms(1,2,3)])
qed

theorem threshold_independence_witness:
  "group_contract W64 \<and> schedule_ok inOrder \<and>
   shamirShare (Order W64) [5, 3] 1 = 8 \<and>
   shamirShare (Order W64) [5, 3] 2 = 11 \<and>
   shamirShare (Order W64) [5, 3] 3 = 14 \<and>
   CombinePartialDecryptions W64 True inOrder 77 [1 \<mapsto> 56, 2 \<mapsto> 77] [1, 2] = Returned (Inr 42) \<and>
   CombinePartialDecryptions W64 True inOrder 77 [2 \<mapsto> 77, 3 \<mapsto> 98] [2, 3] = Returned (Inr 42)"
proof -
  have d1: "distinct [1, 2 :: int]" and d2: "distinct [2, 3 :: int]" by simp_all
  have t1: "length [5, 3 :: int] \<le> length [1, 2 :: int]"
    and t2: "length [5, 3 :: int] \<le> length [2, 3 :: int]" by simp_all
  have r1: "\<forall>i\<in>set [1, 2 :: int]. 0 < i \<and> i < 2 ^ 63"
    and r2: "\<forall>i\<in>set [2, 3 :: int]. 0 < i \<and> i < 2 ^ 63" by simp_all
  have c1: "\<forall>i\<in>set [1, 2 :: int]. \<forall>j\<in>set [1, 2]. i \<noteq> j \<longrightarrow> coprime (i - j) (Order W64)"
    and c2: "\<forall>i\<in>set [2, 3 :: int]. \<forall>j\<in>set [2, 3]. i \<noteq> j \<longrightarrow> coprime (i - j) (Order W64)"
    by simp_all
  have s: "shamirShare (Order W64) [5, 3] 1 = 8" "shamirShare (Order W64) [5, 3] 2 = 11"
    "shamirShare (Order W64) [5, 3] 3 = 14"
    by (simp_all add: shamirShare_def)
  have p1: "\<forall>i\<in>set [1, 2]. [1 \<mapsto> 56, 2 \<mapsto> 77] i =
      Some (ComputePartialDecryption W64 \<lparr>ID = i, PrivateShare = shamirShare (Order W64) [5, 3] i\<rparr> 7)"
    by (simp add: ComputePartialDecryption_def shamirShare_def)
  have p2: "\<forall>i\<in>set [2, 3]. [2 \<mapsto> 77, 3 \<mapsto> 98] i =
      Some (ComputePartialDecryption W64 \<lparr>ID = i, PrivateShare = shamirShare (Order W64) [5, 3] i\<rparr> 7)"
    by (simp add: ComputePartialDecryption_def shamirShare_def)
  note fact = threshold_independence [OF W64_contract inOrder_ok inOrder_ok d1 d2 t1 t2 r1 r2 c1 c2 p1 p2,
      of True 77]
  have le: "(42 :: nat) \<le> discreteLogMaxMessage" by (simp add: discreteLogMaxMessage_def)
  have "recoverScalar W64 True inOrder (word_of_int (int 42)) = Inr (int 42)"
    by (rule W64_roundtrip [OF inOrder_ok le])
  then have m: "recoverScalar W64 True inOrder
      (G1_Add W64 77 (G1_Neg W64 (G1_ScalarMult W64 7 (peval [5, 3] 0 mod Order W64)))) = Inr 42"
    by simp
  have a: "CombinePartialDecryptions W64 True inOrder 77 [1 \<mapsto> 56, 2 \<mapsto> 77] [1, 2] = Returned (Inr 42)"
    using fact [THEN conjunct2] m by (simp only:)
  have b: "CombinePartialDecryptions W64 True inOrder 77 [2 \<mapsto> 77, 3 \<mapsto> 98] [2, 3] = Returned (Inr 42)"
    using fact [THEN conjunct1] a by (simp only:)
  show ?thesis by (intro conjI W64_contract inOrder_ok s a b)
qed

end
